theory Spec2Isabelle
  imports Main "HOL-Library.Sublist"
begin

section \<open>Text and the string methods the executor uses\<close>

text \<open>
  A Python \<open>str\<close> is modelled as a \<open>string\<close>, one \<open>char\<close> per code point; the
  code points are those below 256. \<open>is_space\<close> is \<open>str.isspace\<close> on one character,
  which is also what \<open>\s\<close> matches in a \<open>str\<close> pattern: tab, line feed, vertical
  tab, form feed, carriage return, the four separators 0x1C..0x1F, space, NEL (0x85)
  and the no-break space (0xA0).
\<close>

definition newline :: char where
  "newline = CHR 0x0A"

definition backtick :: char where
  "backtick = CHR 0x60"

definition is_space :: "char \<Rightarrow> bool" where
  "is_space c =
     (let n = (of_char c :: nat)
      in (9 \<le> n \<and> n \<le> 13) \<or> (28 \<le> n \<and> n \<le> 32) \<or> n = 133 \<or> n = 160)"

text \<open>\<open>s.lstrip()\<close>, \<open>s.rstrip()\<close>, \<open>s.strip()\<close> and \<open>s.rstrip(chars)\<close>.\<close>

definition lstrip :: "string \<Rightarrow> string" where
  "lstrip s = dropWhile is_space s"

definition rstrip :: "string \<Rightarrow> string" where
  "rstrip s = rev (dropWhile is_space (rev s))"

definition strip :: "string \<Rightarrow> string" where
  "strip s = rstrip (lstrip s)"

definition rstrip_chars :: "string \<Rightarrow> string \<Rightarrow> string" where
  "rstrip_chars chars s = rev (dropWhile (\<lambda>c. c \<in> set chars) (rev s))"

section \<open>The fragment of Python's \<open>re\<close> the executor uses\<close>

text \<open>
  The patterns of the source use literals, a star over a single character class
  (greedy \<open>c*\<close> and lazy \<open>c*?\<close>), sequence, alternation, the anchors \<open>^\<close> and
  \<open>$\<close> (without \<open>re.MULTILINE\<close>) and at most one capture group. \<open>re\<close> is a
  backtracking matcher: \<open>rx_match\<close> lists every way a pattern can match at a
  position, in the order in which backtracking tries them, so the match \<open>re\<close> reports
  is the head of the list. A match state is the position reached, the text that is left
  and the text captured by group 1.
\<close>

datatype rx =
    Lit string
  | Star "char \<Rightarrow> bool"
  | StarLazy "char \<Rightarrow> bool"
  | Seq rx rx
  | Alt rx rx
  | Bol
  | Eol
  | Grp rx

type_synonym mstate = "nat \<times> string \<times> string option"

fun star_greedy :: "(char \<Rightarrow> bool) \<Rightarrow> nat \<Rightarrow> string \<Rightarrow> string option \<Rightarrow> mstate list" where
  "star_greedy P n [] g = [(n, [], g)]"
| "star_greedy P n (c # cs) g =
     (if P c then star_greedy P (Suc n) cs g else []) @ [(n, c # cs, g)]"

fun star_lazy :: "(char \<Rightarrow> bool) \<Rightarrow> nat \<Rightarrow> string \<Rightarrow> string option \<Rightarrow> mstate list" where
  "star_lazy P n [] g = [(n, [], g)]"
| "star_lazy P n (c # cs) g =
     (n, c # cs, g) # (if P c then star_lazy P (Suc n) cs g else [])"

fun rx_match :: "rx \<Rightarrow> mstate \<Rightarrow> mstate list" where
  "rx_match (Lit w) (n, s, g) =
     (if prefix w s then [(n + length w, drop (length w) s, g)] else [])"
| "rx_match (Star P) (n, s, g) = star_greedy P n s g"
| "rx_match (StarLazy P) (n, s, g) = star_lazy P n s g"
| "rx_match (Seq a b) st = concat (map (rx_match b) (rx_match a st))"
| "rx_match (Alt a b) st = rx_match a st @ rx_match b st"
| "rx_match Bol (n, s, g) = (if n = 0 then [(n, s, g)] else [])"
| "rx_match Eol (n, s, g) = (if s = [] \<or> s = [newline] then [(n, s, g)] else [])"
| "rx_match (Grp r) (n, s, g) =
     map (\<lambda>(n', s', g'). (n', s', Some (take (n' - n) s))) (rx_match r (n, s, g))"

text \<open>
  A match object: where the match starts and ends, the matched text (\<open>group(0)\<close>) and
  group 1.
\<close>

record rmatch =
  m_start :: nat
  m_end :: nat
  m_text :: string
  m_group :: "string option"

text \<open>
  The scan behind \<open>re.search\<close>, \<open>re.findall\<close> and \<open>re.sub\<close>: try the pattern at
  position \<open>n\<close>, then at each later position, up to and including the end of the text.
  With \<open>adv\<close> set (the previous match was empty and ended here) an empty match at the
  first position is passed over, as \<open>re\<close> does since Python 3.7.
\<close>

fun rx_scan :: "rx \<Rightarrow> bool \<Rightarrow> nat \<Rightarrow> string \<Rightarrow> rmatch option" where
  "rx_scan r adv n s =
     (case filter (\<lambda>(n', s', g'). \<not> adv \<or> n' \<noteq> n) (rx_match r (n, s, None)) of
        (n', s', g') # _ \<Rightarrow>
          Some \<lparr>m_start = n, m_end = n', m_text = take (n' - n) s, m_group = g'\<rparr>
      | [] \<Rightarrow> (case s of [] \<Rightarrow> None | c # cs \<Rightarrow> rx_scan r False (Suc n) cs))"

definition rx_search :: "rx \<Rightarrow> string \<Rightarrow> rmatch option" where
  "rx_search r s = rx_scan r False 0 s"

text \<open>Every match state a pattern produces lies further on in the same text.\<close>

lemma star_greedy_suffix:
  "(n', s', g') \<in> set (star_greedy P n s g) \<Longrightarrow>
     n \<le> n' \<and> n' - n \<le> length s \<and> s' = drop (n' - n) s \<and> g' = g"
proof (induction s arbitrary: n)
  case Nil
  then show ?case by simp
next
  case (Cons c cs)
  show ?case
  proof (cases "(n', s', g') = (n, c # cs, g)")
    case True
    then show ?thesis by simp
  next
    case False
    with Cons.prems have "(n', s', g') \<in> set (star_greedy P (Suc n) cs g)"
      by (auto split: if_splits)
    from Cons.IH[OF this] have ih: "Suc n \<le> n'" "n' - Suc n \<le> length cs"
      "s' = drop (n' - Suc n) cs" "g' = g"
      by auto
    from ih(1) have "n' - n = Suc (n' - Suc n)" by arith
    with ih show ?thesis by simp
  qed
qed

lemma star_lazy_suffix:
  "(n', s', g') \<in> set (star_lazy P n s g) \<Longrightarrow>
     n \<le> n' \<and> n' - n \<le> length s \<and> s' = drop (n' - n) s \<and> g' = g"
proof (induction s arbitrary: n)
  case Nil
  then show ?case by simp
next
  case (Cons c cs)
  show ?case
  proof (cases "(n', s', g') = (n, c # cs, g)")
    case True
    then show ?thesis by simp
  next
    case False
    with Cons.prems have "(n', s', g') \<in> set (star_lazy P (Suc n) cs g)"
      by (auto split: if_splits)
    from Cons.IH[OF this] have ih: "Suc n \<le> n'" "n' - Suc n \<le> length cs"
      "s' = drop (n' - Suc n) cs" "g' = g"
      by auto
    from ih(1) have "n' - n = Suc (n' - Suc n)" by arith
    with ih show ?thesis by simp
  qed
qed

lemma rx_match_suffix:
  "(n', s', g') \<in> set (rx_match r (n, s, g)) \<Longrightarrow>
     n \<le> n' \<and> n' - n \<le> length s \<and> s' = drop (n' - n) s"
proof (induction r arbitrary: n s g n' s' g')
  case (Lit w)
  then show ?case by (auto split: if_splits simp: prefix_def)
next
  case (Star P)
  then show ?case using star_greedy_suffix by fastforce
next
  case (StarLazy P)
  then show ?case using star_lazy_suffix by fastforce
next
  case (Seq a b)
  from Seq.prems obtain n1 s1 g1 where
    m1: "(n1, s1, g1) \<in> set (rx_match a (n, s, g))" and
    m2: "(n', s', g') \<in> set (rx_match b (n1, s1, g1))"
    by auto
  from Seq.IH(1)[OF m1] have a: "n \<le> n1" "n1 - n \<le> length s" "s1 = drop (n1 - n) s"
    by auto
  from Seq.IH(2)[OF m2] have b: "n1 \<le> n'" "n' - n1 \<le> length s1" "s' = drop (n' - n1) s1"
    by auto
  from a b show ?case by auto
next
  case (Alt a b)
  then show ?case by auto
next
  case Bol
  then show ?case by (auto split: if_splits)
next
  case Eol
  then show ?case by (auto split: if_splits)
next
  case (Grp r)
  then show ?case by auto
qed

lemma rx_scan_bounds:
  "rx_scan r adv n s = Some m \<Longrightarrow>
     n \<le> m_start m \<and> m_start m \<le> m_end m \<and> m_end m - n \<le> length s \<and>
     (adv \<and> m_start m = n \<longrightarrow> n < m_end m)"
proof (induction r adv n s rule: rx_scan.induct)
  case (1 r adv n s)
  show ?case
  proof (cases "filter (\<lambda>(n', s', g'). \<not> adv \<or> n' \<noteq> n) (rx_match r (n, s, None))")
    case Nil
    with "1.prems" obtain c cs where s: "s = c # cs" and
      rec: "rx_scan r False (Suc n) cs = Some m"
      by (auto split: list.splits)
    from "1.IH"[OF Nil s rec] s show ?thesis by auto
  next
    case (Cons st sts)
    obtain n' s' g' where st: "st = (n', s', g')" by (cases st)
    from Cons st have "(n', s', g') \<in> set (filter (\<lambda>(n', s', g'). \<not> adv \<or> n' \<noteq> n)
        (rx_match r (n, s, None)))"
      by simp
    then have mem: "(n', s', g') \<in> set (rx_match r (n, s, None))" and ne: "\<not> adv \<or> n' \<noteq> n"
      by auto
    from "1.prems" Cons st have m: "m_start m = n" "m_end m = n'"
      by auto
    from rx_match_suffix[OF mem] m ne show ?thesis by auto
  qed
qed

text \<open>
  The matches \<open>re.finditer\<close> yields, left to right, none overlapping: after a match
  the scan resumes where it ended.
\<close>

function rx_finditer :: "rx \<Rightarrow> bool \<Rightarrow> nat \<Rightarrow> string \<Rightarrow> rmatch list" where
  "rx_finditer r adv n s =
     (case rx_scan r adv n s of
        None \<Rightarrow> []
      | Some m \<Rightarrow>
          m # rx_finditer r (m_end m = m_start m) (m_end m) (drop (m_end m - n) s))"
  by pat_completeness auto
termination
proof (relation "measure (\<lambda>(r, adv, n, s). 2 * length s + (if adv then 0 else 1))", goal_cases)
  case 1
  show ?case by simp
next
  case (2 r adv n s m)
  from rx_scan_bounds[OF 2] show ?case
    by (auto split: if_splits)
qed

text \<open>\<open>re.findall\<close> for a pattern without a capture group: the matched texts.\<close>

definition rx_findall :: "rx \<Rightarrow> string \<Rightarrow> string list" where
  "rx_findall r s = map m_text (rx_finditer r False 0 s)"

text \<open>
  \<open>re.sub\<close> with a replacement that has no escapes: the text between the matches,
  with \<open>repl\<close> in place of each match.
\<close>

fun splice :: "string \<Rightarrow> nat \<Rightarrow> string \<Rightarrow> rmatch list \<Rightarrow> string" where
  "splice repl n s [] = s"
| "splice repl n s (m # ms) =
     take (m_start m - n) s @ repl @ splice repl (m_end m) (drop (m_end m - n) s) ms"

definition rx_sub :: "rx \<Rightarrow> string \<Rightarrow> string \<Rightarrow> string" where
  "rx_sub r repl s = splice repl 0 s (rx_finditer r False 0 s)"

section \<open>The command normalizer\<close>

text \<open>
  \<^verbatim>\<open>re.sub(r'^```python\s*', '', code).rstrip('```').strip()\<close>
\<close>

definition fence_open :: string where
  "fence_open = [backtick, backtick, backtick] @ ''python''"

definition fence_pattern :: rx where
  "fence_pattern = Seq Bol (Seq (Lit fence_open) (Star is_space))"

definition normalize_code :: "string \<Rightarrow> string" where
  "normalize_code code =
     strip (rstrip_chars [backtick, backtick, backtick] (rx_sub fence_pattern [] code))"

section \<open>The command splitter\<close>

text \<open>
  \<^verbatim>\<open>pattern = r'.*?execution\s*=\s*tool\.execute\([^\n]*\)\s*(?:\n|$)'\<close>, used with
  \<open>re.DOTALL\<close>, so \<open>.\<close> matches every character.
\<close>

definition any_char :: "char \<Rightarrow> bool" where
  "any_char c = True"

definition not_newline :: "char \<Rightarrow> bool" where
  "not_newline c = (c \<noteq> newline)"

definition invocation_head :: rx where
  "invocation_head =
     Seq (Lit ''execution'') (Seq (Star is_space) (Seq (Lit ''='') (Seq (Star is_space)
       (Lit ''tool.execute(''))))"

definition invocation_close :: rx where
  "invocation_close =
     Seq (Star not_newline) (Seq (Lit '')'') (Seq (Star is_space) (Alt (Lit [newline]) Eol)))"

definition invocation :: rx where
  "invocation = Seq invocation_head invocation_close"

definition split_pattern :: rx where
  "split_pattern = Seq (StarLazy any_char) invocation"

definition split_commands :: "string \<Rightarrow> string list" where
  "split_commands command =
     map strip (filter (\<lambda>block. strip block \<noteq> []) (rx_findall split_pattern command))"

section \<open>The response parser\<close>

text \<open>
  \<open>ToolCommand\<close> is the structured record of \<open>octotools.models.formatters\<close>, with
  three text fields. A response is text, a \<open>ToolCommand\<close>, or any other object.
\<close>

record tool_command =
  analysis :: string
  explanation :: string
  command :: string

datatype response = Text string | Structured tool_command | Opaque

datatype parse_error = TypeError | AttributeError

definition analysis_pattern :: rx where
  "analysis_pattern =
     Seq (Lit ''Analysis:'') (Seq (Grp (StarLazy any_char)) (Lit ''Command Explanation''))"

definition explanation_pattern :: rx where
  "explanation_pattern =
     Seq (Lit ''Command Explanation:'') (Seq (Grp (StarLazy any_char)) (Lit ''Generated Command''))"

definition command_pattern :: rx where
  "command_pattern =
     Seq (Lit ''Generated Command:'') (Seq (StarLazy any_char)
       (Seq (Lit (fence_open @ [newline]))
         (Seq (Grp (StarLazy any_char)) (Lit [backtick, backtick, backtick]))))"

text \<open>
  \<^verbatim>\<open>m.group(1).strip() if m else fallback\<close>, for \<open>m = re.search(pattern, text, re.DOTALL)\<close>.
  \<open>group(1)\<close> of a group that took no part in the match is \<open>None\<close>, which has no
  \<open>strip\<close>.
\<close>

definition section_or :: "rx \<Rightarrow> string \<Rightarrow> string \<Rightarrow> parse_error + string" where
  "section_or pattern fallback txt =
     (case rx_search pattern txt of
        None \<Rightarrow> Inr fallback
      | Some m \<Rightarrow> (case m_group m of None \<Rightarrow> Inl AttributeError | Some g \<Rightarrow> Inr (strip g)))"

text \<open>
  \<open>decode\<close> stands for \<^verbatim>\<open>ToolCommand(**json.loads(response))\<close>: \<open>None\<close> when either
  step raises, in which case the text is kept and scanned. Searching an object that is
  neither text nor a \<open>ToolCommand\<close> raises \<open>TypeError\<close>.
\<close>

definition extract_explanation_and_command ::
  "(string \<Rightarrow> tool_command option) \<Rightarrow> response \<Rightarrow> parse_error + (string \<times> string \<times> string)"
where
  "extract_explanation_and_command decode resp =
     (let resp' = (case resp of
                     Text t \<Rightarrow> (case decode t of Some tc \<Rightarrow> Structured tc | None \<Rightarrow> Text t)
                   | _ \<Rightarrow> resp)
      in case resp' of
           Structured tc \<Rightarrow>
             Inr (strip (analysis tc), strip (explanation tc),
                  normalize_code (strip (command tc)))
         | Text t \<Rightarrow>
             (case section_or analysis_pattern ''No analysis found.'' t of
                Inl e \<Rightarrow> Inl e
              | Inr a \<Rightarrow>
                 (case section_or explanation_pattern ''No explanation found.'' t of
                    Inl e \<Rightarrow> Inl e
                  | Inr x \<Rightarrow>
                     (case section_or command_pattern ''No command found.'' t of
                        Inl e \<Rightarrow> Inl e
                      | Inr c \<Rightarrow> Inr (a, x, normalize_code c))))
         | Opaque \<Rightarrow> Inl TypeError)"

section \<open>The timed block runner and the coordinator\<close>

text \<open>
  Python values as far as the coordinator looks at them: \<open>None\<close>, a string, an
  integer, or a reference to any other object. An exception carries its \<open>str()\<close>; its class matters
  only through the two handlers of the source: \<open>except TimeoutError\<close> and
  \<open>except Exception\<close>. \<open>Failure\<close> is any other class derived from \<open>Exception\<close>;
  \<open>SystemExiting\<close> is a class derived from \<open>BaseException\<close> only (\<open>SystemExit\<close>,
  \<open>KeyboardInterrupt\<close>, \<open>GeneratorExit\<close>), which neither handler catches.
\<close>

datatype pyval = PyNone | PyStr string | PyInt int | PyRef nat

datatype pyexc = TimeoutError string | Failure string | SystemExiting string

fun exc_str :: "pyexc \<Rightarrow> string" where
  "exc_str (TimeoutError msg) = msg"
| "exc_str (Failure msg) = msg"
| "exc_str (SystemExiting msg) = msg"

fun is_exit :: "pyexc \<Rightarrow> bool" where
  "is_exit (SystemExiting msg) = True"
| "is_exit e = False"

text \<open>
  The state of the process: \<open>env\<close> is everything the interpreter keeps outside the
  coordinator's own variables (the module's globals, which \<open>exec\<close> receives as
  \<open>globals()\<close>, the objects behind references, the file system), \<open>alarm\<close> is the
  number of seconds the timer of \<open>SIGALRM\<close> was armed with last (0: no timer is
  armed), \<open>alarm_handler\<close> says whether \<open>timeout_handler\<close> is installed for
  \<open>SIGALRM\<close>, and \<open>main_thread\<close> says whether the coordinator runs in the main
  thread of the main interpreter, the only place where \<open>signal.signal\<close> may be called.
\<close>

record 'g pystate =
  env :: 'g
  alarm :: int
  alarm_handler :: bool
  main_thread :: bool

type_synonym scope = "string \<rightharpoonup> pyval"

text \<open>
  What a block does when \<open>exec(block, globals(), local_context)\<close> runs it from a given
  state: the seconds it needs when nothing interrupts it, what it leaves then (the local
  scope as the block left it, or an exception), and what it leaves when a signal handler
  raises an exception in it before it has finished. A block whose code does not catch
  that exception leaves it. A block that itself arms or disarms the timer of \<open>SIGALRM\<close>
  or replaces its handler is not described by such a record.
\<close>

record 'g block_run =
  needs :: nat
  completes :: "(pyexc + scope) \<times> 'g pystate"
  interrupted :: "pyexc \<Rightarrow> (pyexc + scope) \<times> 'g pystate"

text \<open>
  What the coordinator calls: \<open>importlib.import_module\<close>, \<open>getattr(module, name)\<close>,
  \<open>getattr(cls, 'require_llm_engine', False)\<close>, the constructor of the tool class
  (with \<open>model_string\<close> or without), the look-up of the tool's attribute
  \<open>set_custom_output_dir\<close>, the call of that method, and the blocks that
  \<open>exec\<close> runs.
\<close>

record ('m, 'c, 'g) runtime =
  import_module :: "string \<Rightarrow> 'g pystate \<Rightarrow> (pyexc + 'm) \<times> 'g pystate"
  getattr_class :: "'m \<Rightarrow> string \<Rightarrow> 'g pystate \<Rightarrow> (pyexc + 'c) \<times> 'g pystate"
  require_llm_engine :: "'c \<Rightarrow> bool"
  construct :: "'c \<Rightarrow> string option \<Rightarrow> 'g pystate \<Rightarrow> (pyexc + pyval) \<times> 'g pystate"
  lookup_set_custom_output_dir :: "pyval \<Rightarrow> 'g pystate \<Rightarrow> (pyexc + unit) \<times> 'g pystate"
  set_custom_output_dir :: "pyval \<Rightarrow> string \<Rightarrow> 'g pystate \<Rightarrow> (pyexc + unit) \<times> 'g pystate"
  run_block :: "string \<Rightarrow> scope \<Rightarrow> 'g pystate \<Rightarrow> 'g block_run"

record executor =
  llm_engine_name :: string
  root_cache_dir :: string
  num_threads :: int
  max_time :: int
  max_output_length :: int
  verbose :: bool
  query_cache_dir :: "string option"

text \<open>\<open>str(n)\<close> for an integer, \<open>s.lower()\<close> and \<open>s.replace(old, new)\<close>.\<close>

fun str_nat :: "nat \<Rightarrow> string" where
  "str_nat n =
     (if n < 10 then [char_of (48 + n)] else str_nat (n div 10) @ [char_of (48 + n mod 10)])"

definition str_int :: "int \<Rightarrow> string" where
  "str_int i = (if i < 0 then ''-'' @ str_nat (nat (- i)) else str_nat (nat i))"

definition lower_char :: "char \<Rightarrow> char" where
  "lower_char c =
     (let n = (of_char c :: nat)
      in if (65 \<le> n \<and> n \<le> 90) \<or> (192 \<le> n \<and> n \<le> 222 \<and> n \<noteq> 215)
         then char_of (n + 32) else c)"

definition lower :: "string \<Rightarrow> string" where
  "lower s = map lower_char s"

fun replace_all :: "string \<Rightarrow> string \<Rightarrow> string \<Rightarrow> string" where
  "replace_all old new [] = (if old = [] then new else [])"
| "replace_all old new (c # cs) =
     (if old = [] then new @ c # replace_all old new cs
      else if prefix old (c # cs) then new @ replace_all old new (drop (length old - 1) cs)
      else c # replace_all old new cs)"

definition tool_module_name :: "string \<Rightarrow> string" where
  "tool_module_name tool_name = ''tools.'' @ replace_all ''_tool'' [] (lower tool_name) @ ''.tool''"

definition timeout_text :: "int \<Rightarrow> string" where
  "timeout_text seconds = ''Execution timed out after '' @ str_int seconds @ '' seconds''"

text \<open>
  \<open>signal.signal(signal.SIGALRM, timeout_handler)\<close> raises \<open>ValueError\<close> outside the
  main thread. \<open>signal.alarm(seconds)\<close> takes a C \<open>int\<close>: outside its range it
  raises \<open>OverflowError\<close>; inside, the C library reads the number as unsigned, so a
  negative number arms a timer of more than two thousand million seconds, and 0 disarms
  the timer. The texts are those of CPython 3.8 to 3.12, on a platform that has
  \<open>SIGALRM\<close>.
\<close>

definition signal_thread_text :: string where
  "signal_thread_text = ''signal only works in main thread of the main interpreter''"

definition alarm_overflow_text :: string where
  "alarm_overflow_text = ''Python int too large to convert to C int''"

definition signal_signal :: "'g pystate \<Rightarrow> (pyexc + unit) \<times> 'g pystate" where
  "signal_signal st =
     (if main_thread st then (Inr (), st\<lparr>alarm_handler := True\<rparr>)
      else (Inl (Failure signal_thread_text), st))"

definition signal_alarm :: "int \<Rightarrow> 'g pystate \<Rightarrow> (pyexc + unit) \<times> 'g pystate" where
  "signal_alarm seconds st =
     (if - (2 ^ 31) \<le> seconds \<and> seconds < 2 ^ 31
      then (Inr (), st\<lparr>alarm := seconds mod 2 ^ 32\<rparr>)
      else (Inl (Failure alarm_overflow_text), st))"

text \<open>What \<open>timeout_handler\<close> raises.\<close>

definition timeout_handler :: pyexc where
  "timeout_handler = TimeoutError ''Function execution timed out''"

text \<open>
  \<open>exec(block, globals(), local_context)\<close> under the timer: when the handler is
  installed and the timer is armed with fewer seconds than the block needs, the signal
  arrives while the block runs and the handler raises its exception in it; otherwise
  the block runs to its end. (A block that needs exactly the seconds of the timer is
  taken to finish first.)
\<close>

definition exec ::
  "('m, 'c, 'g) runtime \<Rightarrow> string \<Rightarrow> scope \<Rightarrow> 'g pystate \<Rightarrow> (pyexc + scope) \<times> 'g pystate"
where
  "exec rt block local_context st =
     (if alarm_handler st \<and> 0 < alarm st \<and>
         alarm st < int (needs (run_block rt block local_context st))
      then interrupted (run_block rt block local_context st) timeout_handler
      else completes (run_block rt block local_context st))"

text \<open>
  \<open>execute_with_timeout\<close>: install the handler and arm the timer, both before the
  \<open>try\<close>; then run the block. The \<open>finally\<close> clause disarms the timer on every
  way out of the \<open>try\<close>.
\<close>

definition execute_with_timeout ::
  "executor \<Rightarrow> (string \<Rightarrow> scope \<Rightarrow> 'g pystate \<Rightarrow> (pyexc + scope) \<times> 'g pystate) \<Rightarrow>
     string \<Rightarrow> scope \<Rightarrow> 'g pystate \<Rightarrow> (pyexc + pyval) \<times> 'g pystate"
where
  "execute_with_timeout self ex block local_context st =
     (case signal_signal st of
        (Inl e, s1) \<Rightarrow> (Inl e, s1)
      | (Inr u, s1) \<Rightarrow>
     (case signal_alarm (max_time self) s1 of
        (Inl e, s2) \<Rightarrow> (Inl e, s2)
      | (Inr u', s2) \<Rightarrow>
     (case ex block local_context s2 of
        (Inr ctx, st') \<Rightarrow>
          (Inr (case ctx ''execution'' of None \<Rightarrow> PyNone | Some v \<Rightarrow> v), st'\<lparr>alarm := 0\<rparr>)
      | (Inl (TimeoutError msg), st') \<Rightarrow>
          (Inr (PyStr (timeout_text (max_time self))), st'\<lparr>alarm := 0\<rparr>)
      | (Inl e, st') \<Rightarrow> (Inl e, st'\<lparr>alarm := 0\<rparr>))))"

text \<open>The loop over the blocks, with the results collected so far.\<close>

fun run_blocks ::
  "executor \<Rightarrow> (string \<Rightarrow> scope \<Rightarrow> 'g pystate \<Rightarrow> (pyexc + scope) \<times> 'g pystate) \<Rightarrow>
     pyval \<Rightarrow> string list \<Rightarrow> pyval list \<Rightarrow> 'g pystate \<Rightarrow> (pyexc + pyval list) \<times> 'g pystate"
where
  "run_blocks self ex tool [] executions st = (Inr executions, st)"
| "run_blocks self ex tool (block # blocks) executions st =
     (case execute_with_timeout self ex block [''tool'' \<mapsto> tool] st of
        (Inl e, st') \<Rightarrow> (Inl e, st')
      | (Inr result, st') \<Rightarrow>
          run_blocks self ex tool blocks
            (executions @
              [if result \<noteq> PyNone then result
               else PyStr (''No execution captured from block: '' @ block)])
            st')"

text \<open>The text of the \<open>AttributeError\<close> for an unset \<open>query_cache_dir\<close>.\<close>

definition no_query_cache_dir :: string where
  "no_query_cache_dir =
     [CHR 0x27] @ ''Executor'' @ [CHR 0x27] @ '' object has no attribute '' @
     [CHR 0x27] @ ''query_cache_dir'' @ [CHR 0x27]"

text \<open>
  The statements of the \<open>try\<close> block before the loop: import the module, get the
  class, construct the tool, set its output directory. In
  \<open>tool.set_custom_output_dir(self.query_cache_dir)\<close> the method is looked up first,
  then the argument is evaluated, then the method is called. Reading
  \<open>self.query_cache_dir\<close> before \<open>set_query_cache_dir\<close> has set it raises
  \<open>AttributeError\<close>.
\<close>

definition resolve_tool ::
  "executor \<Rightarrow> ('m, 'c, 'g) runtime \<Rightarrow> string \<Rightarrow> 'g pystate \<Rightarrow> (pyexc + pyval) \<times> 'g pystate"
where
  "resolve_tool self rt tool_name st =
     (case import_module rt (tool_module_name tool_name) st of
        (Inl e, s1) \<Rightarrow> (Inl e, s1)
      | (Inr module, s1) \<Rightarrow>
     (case getattr_class rt module tool_name s1 of
        (Inl e, s2) \<Rightarrow> (Inl e, s2)
      | (Inr tool_class, s2) \<Rightarrow>
     (case (if require_llm_engine rt tool_class
            then construct rt tool_class (Some (llm_engine_name self)) s2
            else construct rt tool_class None s2) of
        (Inl e, s3) \<Rightarrow> (Inl e, s3)
      | (Inr tool, s3) \<Rightarrow>
     (case lookup_set_custom_output_dir rt tool s3 of
        (Inl e, s4) \<Rightarrow> (Inl e, s4)
      | (Inr bound, s4) \<Rightarrow>
     (case query_cache_dir self of
        None \<Rightarrow> (Inl (Failure no_query_cache_dir), s4)
      | Some dir \<Rightarrow>
     (case set_custom_output_dir rt tool dir s4 of
        (Inl e, s5) \<Rightarrow> (Inl e, s5)
      | (Inr u, s5) \<Rightarrow> (Inr tool, s5)))))))"

text \<open>
  What \<open>execute_tool_command\<close> gives back: the list of results, the error text of the
  \<open>except Exception\<close> handler, or an exception that handler does not catch.
\<close>

datatype tool_result = Executions "pyval list" | ErrorText string | Propagated pyexc

definition execute_tool_command ::
  "executor \<Rightarrow> ('m, 'c, 'g) runtime \<Rightarrow> string \<Rightarrow> string \<Rightarrow> 'g pystate \<Rightarrow>
     tool_result \<times> 'g pystate"
where
  "execute_tool_command self rt tool_name cmd st =
     (case (case resolve_tool self rt tool_name st of
              (Inl e, s1) \<Rightarrow> (Inl e, s1)
            | (Inr tool, s1) \<Rightarrow> run_blocks self (exec rt) tool (split_commands cmd) [] s1) of
        (Inr executions, st') \<Rightarrow> (Executions executions, st')
      | (Inl e, st') \<Rightarrow>
          (if is_exit e then (Propagated e, st')
           else (ErrorText (''Error in execute_tool_command: '' @ exc_str e), st')))"

section \<open>Trimming\<close>

declare rx_scan.simps [simp del]
declare rx_finditer.simps [simp del]

lemma is_space_newline [simp]: "is_space newline"
  by (simp add: is_space_def newline_def)

lemma not_space_backtick [simp]: "\<not> is_space backtick"
  by (simp add: is_space_def backtick_def)

text \<open>A text is trimmed when it neither starts nor ends with white space.\<close>

definition stripped :: "string \<Rightarrow> bool" where
  "stripped s = (s = [] \<or> (\<not> is_space (hd s) \<and> \<not> is_space (last s)))"

lemma length_lstrip: "length (lstrip s) \<le> length s"
  by (simp add: lstrip_def length_dropWhile_le)

lemma length_rstrip: "length (rstrip s) \<le> length s"
  using length_dropWhile_le[of is_space "rev s"] by (simp add: rstrip_def)

lemma length_strip: "length (strip s) \<le> length s"
  using length_rstrip[of "lstrip s"] length_lstrip[of s] by (simp add: strip_def)

lemma length_rstrip_chars: "length (rstrip_chars cs s) \<le> length s"
  using length_dropWhile_le[of "\<lambda>c. c \<in> set cs" "rev s"] by (simp add: rstrip_chars_def)

lemma rstrip_id: "s = [] \<or> \<not> is_space (last s) \<Longrightarrow> rstrip s = s"
  by (cases s rule: rev_cases) (auto simp: rstrip_def)

lemma lstrip_id: "s = [] \<or> \<not> is_space (hd s) \<Longrightarrow> lstrip s = s"
  by (cases s) (auto simp: lstrip_def)

lemma stripped_id: "stripped s \<Longrightarrow> strip s = s"
  by (auto simp: stripped_def strip_def lstrip_id rstrip_id)

lemma rstrip_snoc: "rstrip (s @ [c]) = (if is_space c then rstrip s else s @ [c])"
  by (simp add: rstrip_def)

lemma rstrip_props: "rstrip s = [] \<or> (hd (rstrip s) = hd s \<and> \<not> is_space (last (rstrip s)))"
proof (induction s rule: rev_induct)
  case Nil
  then show ?case by (simp add: rstrip_def)
next
  case (snoc c s)
  show ?case
  proof (cases "is_space c")
    case True
    with snoc show ?thesis
      by (cases s) (auto simp: rstrip_snoc rstrip_def)
  next
    case False
    then show ?thesis by (simp add: rstrip_snoc)
  qed
qed

lemma lstrip_props: "lstrip s = [] \<or> \<not> is_space (hd (lstrip s))"
  using hd_dropWhile[of is_space s] by (auto simp: lstrip_def)

lemma rstrip_Nil [simp]: "rstrip [] = []"
  by (simp add: rstrip_def)

lemma stripped_strip: "stripped (strip s)"
  using rstrip_props[of "lstrip s"] lstrip_props[of s]
  by (auto simp: stripped_def strip_def)

lemma strip_idem: "strip (strip s) = strip s"
  by (rule stripped_id[OF stripped_strip])

lemma rstrip_chars_id:
  "s = [] \<or> last s \<notin> set cs \<Longrightarrow> rstrip_chars cs s = s"
  by (cases s rule: rev_cases) (auto simp: rstrip_chars_def)

lemma rstrip_chars_shorter:
  "s \<noteq> [] \<Longrightarrow> last s \<in> set cs \<Longrightarrow> length (rstrip_chars cs s) < length s"
proof (cases s rule: rev_cases)
  case Nil
  assume "s \<noteq> []"
  with Nil show ?thesis by simp
next
  case (snoc t c)
  assume "last s \<in> set cs"
  with snoc have "rstrip_chars cs s = rstrip_chars cs t"
    by (simp add: rstrip_chars_def)
  with length_rstrip_chars[of cs t] snoc show ?thesis by simp
qed

section \<open>The normalizer, computed\<close>

text \<open>
  The fence pattern is anchored at the start of the text, so \<open>re.sub\<close> replaces at
  most one match: the opening fence with the white space after it.
\<close>

lemma rx_match_fence_later: "n \<noteq> 0 \<Longrightarrow> rx_match fence_pattern (n, s, g) = []"
  by (simp add: fence_pattern_def)

lemma rx_scan_fence_later: "n \<noteq> 0 \<Longrightarrow> rx_scan fence_pattern adv n s = None"
proof (induction s arbitrary: n adv)
  case Nil
  then show ?case by (subst rx_scan.simps) (simp add: rx_match_fence_later)
next
  case (Cons c cs)
  from Cons.IH[of "Suc n" False] Cons.prems show ?case
    by (subst rx_scan.simps) (simp add: rx_match_fence_later)
qed

lemma star_greedy_hd:
  "\<exists>rest. star_greedy P n s g = (n + length (takeWhile P s), dropWhile P s, g) # rest"
proof (induction s arbitrary: n)
  case Nil
  then show ?case by simp
next
  case (Cons c cs)
  show ?case
  proof (cases "P c")
    case True
    from Cons.IH[of "Suc n"] obtain rest where
      "star_greedy P (Suc n) cs g = (Suc n + length (takeWhile P cs), dropWhile P cs, g) # rest"
      by blast
    with True show ?thesis by simp
  next
    case False
    then show ?thesis by simp
  qed
qed

lemma rx_match_fence_start:
  "prefix fence_open s \<Longrightarrow>
     \<exists>rest. rx_match fence_pattern (0, s, g) =
       (9 + length (takeWhile is_space (drop 9 s)), dropWhile is_space (drop 9 s), g) # rest"
proof -
  assume p: "prefix fence_open s"
  have len: "length fence_open = 9" by (simp add: fence_open_def)
  obtain rest where "star_greedy is_space 9 (drop 9 s) g =
      (9 + length (takeWhile is_space (drop 9 s)), dropWhile is_space (drop 9 s), g) # rest"
    using star_greedy_hd by blast
  with p len show ?thesis by (simp add: fence_pattern_def)
qed

lemma rx_match_fence_none:
  "\<not> prefix fence_open s \<Longrightarrow> rx_match fence_pattern (n, s, g) = []"
  by (simp add: fence_pattern_def)

lemma rx_sub_fence:
  "rx_sub fence_pattern [] s =
     (if prefix fence_open s then dropWhile is_space (drop 9 s) else s)"
proof (cases "prefix fence_open s")
  case True
  let ?k = "9 + length (takeWhile is_space (drop 9 s))"
  obtain rest where m: "rx_match fence_pattern (0, s, None) =
      (?k, dropWhile is_space (drop 9 s), None) # rest"
    using rx_match_fence_start[OF True] by blast
  have scan: "rx_scan fence_pattern False 0 s =
      Some \<lparr>m_start = 0, m_end = ?k, m_text = take ?k s, m_group = None\<rparr>"
    using m by (subst rx_scan.simps) simp
  have later: "rx_finditer fence_pattern False ?k (drop ?k s) = []"
    by (subst rx_finditer.simps) (simp add: rx_scan_fence_later)
  have it: "rx_finditer fence_pattern False 0 s =
      [\<lparr>m_start = 0, m_end = ?k, m_text = take ?k s, m_group = None\<rparr>]"
    by (subst rx_finditer.simps) (simp add: scan later)
  have "drop ?k s = dropWhile is_space (drop 9 s)"
    by (metis add.commute drop_drop dropWhile_eq_drop)
  with True it show ?thesis by (simp add: rx_sub_def)
next
  case False
  have "rx_scan fence_pattern False 0 s = None"
  proof (cases s)
    case Nil
    with False show ?thesis by (subst rx_scan.simps) (simp add: rx_match_fence_none)
  next
    case (Cons c cs)
    with False show ?thesis
      by (subst rx_scan.simps) (simp add: rx_match_fence_none rx_scan_fence_later)
  qed
  then have "rx_finditer fence_pattern False 0 s = []"
    by (subst rx_finditer.simps) simp
  with False show ?thesis by (simp add: rx_sub_def)
qed

lemma normalize_code_unfold:
  "normalize_code s =
     strip (rstrip_chars [backtick, backtick, backtick]
       (if prefix fence_open s then lstrip (drop 9 s) else s))"
  by (simp add: normalize_code_def rx_sub_fence lstrip_def)

lemma normalize_code_length: "length (normalize_code s) \<le> length s"
proof -
  have "length (if prefix fence_open s then lstrip (drop 9 s) else s) \<le> length s"
    using length_lstrip[of "drop 9 s"] by (auto intro: le_trans)
  then show ?thesis
    unfolding normalize_code_unfold
    using length_strip length_rstrip_chars le_trans by blast
qed

lemma normalize_code_fixed:
  assumes "stripped y"
  shows "normalize_code y = y \<longleftrightarrow>
    \<not> prefix fence_open y \<and> (y = [] \<or> last y \<noteq> backtick)"
proof (cases "prefix fence_open y")
  case True
  have "length (lstrip (drop 9 y)) \<le> length y - 9"
    using length_lstrip[of "drop 9 y"] by simp
  moreover from True have "9 \<le> length y"
    using prefix_length_le[of fence_open y] by (simp add: fence_open_def)
  ultimately have "length (lstrip (drop 9 y)) < length y" by simp
  moreover have "length (normalize_code y) \<le> length (lstrip (drop 9 y))"
    unfolding normalize_code_unfold using True
    using length_strip length_rstrip_chars le_trans by (simp, blast)
  ultimately have "length (normalize_code y) < length y" by simp
  then have "normalize_code y \<noteq> y" by auto
  with True show ?thesis by simp
next
  case False
  show ?thesis
  proof (cases "y = [] \<or> last y \<noteq> backtick")
    case True
    then have "rstrip_chars [backtick, backtick, backtick] y = y"
      by (intro rstrip_chars_id) auto
    with False True assms show ?thesis
      by (simp add: normalize_code_unfold stripped_id)
  next
    case nb: False
    then have "length (rstrip_chars [backtick, backtick, backtick] y) < length y"
      by (intro rstrip_chars_shorter) auto
    moreover have "length (normalize_code y) \<le>
        length (rstrip_chars [backtick, backtick, backtick] y)"
      unfolding normalize_code_unfold using False by (simp add: length_strip)
    ultimately have "normalize_code y \<noteq> y" by auto
    with False nb show ?thesis by simp
  qed
qed

lemma stripped_normalize_code: "stripped (normalize_code s)"
  by (simp add: normalize_code_def stripped_strip)


text \<open>
  Claim C6 says that the normalizer is idempotent. It is not: a second opening fence, or a
  backtick that the first pass left at the end, is removed only by a second pass. What
  holds is that normalizing the normalized text changes nothing exactly when that text
  neither starts with the opening fence nor ends with a backtick.
\<close>

theorem normalize_code_twice:
  "normalize_code (normalize_code x) = normalize_code x \<longleftrightarrow>
     \<not> prefix fence_open (normalize_code x) \<and>
     (normalize_code x = [] \<or> last (normalize_code x) \<noteq> backtick)"
  by (rule normalize_code_fixed[OF stripped_normalize_code])

theorem normalize_code_twice_witness:
  "normalize_code (normalize_code ''x = 1'') = normalize_code ''x = 1''"
proof -
  have "\<not> prefix fence_open (normalize_code ''x = 1'') \<and>
     (normalize_code ''x = 1'' = [] \<or> last (normalize_code ''x = 1'') \<noteq> backtick)"
    by code_simp
  then show ?thesis using normalize_code_twice[of "''x = 1''"] by blast
qed

text \<open>
  The text of two opening fences and \<open>x\<close>: the first pass removes one fence, the
  second pass the other.
\<close>

theorem normalize_code_not_idempotent:
  "normalize_code (normalize_code (fence_open @ fence_open @ '' x'')) \<noteq>
     normalize_code (fence_open @ fence_open @ '' x'')"
  by code_simp

section \<open>The response parser on a structured record\<close>

lemma extract_structured_eq:
  "extract_explanation_and_command decode (Structured tc) =
     Inr (strip (analysis tc), strip (explanation tc), normalize_code (strip (command tc)))"
  by (simp add: extract_explanation_and_command_def)

lemma extract_decoded_eq:
  "decode t = Some tc \<Longrightarrow>
   extract_explanation_and_command decode (Text t) =
     Inr (strip (analysis tc), strip (explanation tc), normalize_code (strip (command tc)))"
  by (simp add: extract_explanation_and_command_def)

text \<open>
  Claim C7 says that a structured record gives back its three fields, trimmed and
  otherwise untouched. That holds for the analysis and the explanation. The command is
  trimmed and then normalized, like a command found in free text, so an opening fence and
  backticks at the end are removed from it. What holds: the analysis and the explanation
  are the trimmed fields, the command is the normalized trimmed field, a text that
  decodes to a record is treated as that record, and the command is the trimmed field
  exactly when that neither starts with the opening fence nor ends with a backtick. No
  pattern is searched on this path.
\<close>

theorem extract_structured:
  "extract_explanation_and_command decode (Structured tc) =
     Inr (strip (analysis tc), strip (explanation tc), normalize_code (strip (command tc))) \<and>
   (decode t = Some tc \<longrightarrow>
      extract_explanation_and_command decode (Text t) =
        extract_explanation_and_command decode (Structured tc)) \<and>
   (normalize_code (strip (command tc)) = strip (command tc) \<longleftrightarrow>
      \<not> prefix fence_open (strip (command tc)) \<and>
      (strip (command tc) = [] \<or> last (strip (command tc)) \<noteq> backtick))"
  using normalize_code_fixed[OF stripped_strip, of "command tc"]
  by (simp add: extract_structured_eq extract_decoded_eq)

theorem extract_structured_witness:
  "extract_explanation_and_command
     (\<lambda>t. Some \<lparr>analysis = '' a'', explanation = ''e '', command = '' x = 1 ''\<rparr>)
     (Text ''{}'') = Inr (''a'', ''e'', ''x = 1'')"
proof -
  let ?tc = "\<lparr>analysis = '' a'', explanation = ''e '', command = '' x = 1 ''\<rparr>"
  have s: "strip '' a'' = ''a''" "strip ''e '' = ''e''" "strip '' x = 1 '' = ''x = 1''"
    by code_simp+
  have "\<not> prefix fence_open ''x = 1'' \<and> (''x = 1'' = [] \<or> last ''x = 1'' \<noteq> backtick)"
    by code_simp
  with extract_structured[of "\<lambda>t. Some ?tc" ?tc "''{}''"] s show ?thesis
    by simp
qed

text \<open>
  A record whose command is fenced: the command that comes back is \<open>x = 1\<close>, not the
  trimmed field.
\<close>

theorem extract_structured_fenced:
  "extract_explanation_and_command (\<lambda>t. None)
     (Structured \<lparr>analysis = ''a'', explanation = ''e'',
        command = fence_open @ [newline] @ ''x = 1'' @ [newline] @
          [backtick, backtick, backtick]\<rparr>) =
     Inr (''a'', ''e'', ''x = 1'') \<and>
   strip (fence_open @ [newline] @ ''x = 1'' @ [newline] @ [backtick, backtick, backtick]) \<noteq>
     ''x = 1''"
  by code_simp

section \<open>The runner and the loop\<close>

text \<open>
  \<open>can_arm\<close>: the two calls before the \<open>try\<close> succeed. \<open>armed\<close>: the state in
  which the block then runs.
\<close>

definition can_arm :: "executor \<Rightarrow> 'g pystate \<Rightarrow> bool" where
  "can_arm self st = (main_thread st \<and> - (2 ^ 31) \<le> max_time self \<and> max_time self < 2 ^ 31)"

definition armed :: "executor \<Rightarrow> 'g pystate \<Rightarrow> 'g pystate" where
  "armed self st = st\<lparr>alarm_handler := True, alarm := max_time self mod 2 ^ 32\<rparr>"


declare str_nat.simps [simp del]





lemma execute_with_timeout_armed:
  "can_arm self st \<Longrightarrow>
   execute_with_timeout self ex block ctx st =
     (case ex block ctx (armed self st) of
        (Inr ctx', st') \<Rightarrow>
          (Inr (case ctx' ''execution'' of None \<Rightarrow> PyNone | Some v \<Rightarrow> v), st'\<lparr>alarm := 0\<rparr>)
      | (Inl (TimeoutError msg), st') \<Rightarrow>
          (Inr (PyStr (timeout_text (max_time self))), st'\<lparr>alarm := 0\<rparr>)
      | (Inl e, st') \<Rightarrow> (Inl e, st'\<lparr>alarm := 0\<rparr>))"
  by (simp add: execute_with_timeout_def signal_signal_def signal_alarm_def can_arm_def armed_def)

lemma execute_with_timeout_unarmed:
  "\<not> can_arm self st \<Longrightarrow>
   execute_with_timeout self ex block ctx st =
     (if main_thread st then (Inl (Failure alarm_overflow_text), st\<lparr>alarm_handler := True\<rparr>)
      else (Inl (Failure signal_thread_text), st))"
  by (auto simp: execute_with_timeout_def signal_signal_def signal_alarm_def can_arm_def)

lemma execute_with_timeout_completed:
  "can_arm self st \<Longrightarrow> ex block ctx (armed self st) = (Inr ctx', st') \<Longrightarrow>
   execute_with_timeout self ex block ctx st =
     (Inr (case ctx' ''execution'' of None \<Rightarrow> PyNone | Some v \<Rightarrow> v), st'\<lparr>alarm := 0\<rparr>)"
  by (simp add: execute_with_timeout_armed)


lemma execute_with_timeout_raised:
  "can_arm self st \<Longrightarrow> ex block ctx (armed self st) = (Inl e, st') \<Longrightarrow>
   \<forall>msg. e \<noteq> TimeoutError msg \<Longrightarrow>
   execute_with_timeout self ex block ctx st = (Inl e, st'\<lparr>alarm := 0\<rparr>)"
  by (cases e) (simp_all add: execute_with_timeout_armed)




lemma run_blocks_append:
  "run_blocks self ex tool (xs @ ys) acc st =
     (case run_blocks self ex tool xs acc st of
        (Inl e, st') \<Rightarrow> (Inl e, st')
      | (Inr acc', st') \<Rightarrow> run_blocks self ex tool ys acc' st')"
  by (induction xs arbitrary: acc st) (auto split: prod.splits sum.splits)

lemma run_blocks_length:
  "run_blocks self ex tool blocks acc st = (Inr rs, st') \<Longrightarrow>
   length rs = length acc + length blocks"
proof (induction blocks arbitrary: acc st)
  case Nil
  then show ?case by simp
next
  case (Cons b bs)
  from Cons.prems obtain r s1 where
    "execute_with_timeout self ex b [''tool'' \<mapsto> tool] st = (Inr r, s1)" and
    "run_blocks self ex tool bs
       (acc @ [if r \<noteq> PyNone then r else PyStr (''No execution captured from block: '' @ b)]) s1 =
     (Inr rs, st')"
    by (auto split: prod.splits sum.splits)
  from Cons.IH[OF this(2)] show ?case by simp
qed

lemma run_blocks_no_none:
  "run_blocks self ex tool blocks acc st = (Inr rs, st') \<Longrightarrow> PyNone \<notin> set acc \<Longrightarrow>
   PyNone \<notin> set rs"
proof (induction blocks arbitrary: acc st)
  case Nil
  then show ?case by simp
next
  case (Cons b bs)
  from Cons.prems(1) obtain r s1 where
    "execute_with_timeout self ex b [''tool'' \<mapsto> tool] st = (Inr r, s1)" and
    rest: "run_blocks self ex tool bs
       (acc @ [if r \<noteq> PyNone then r else PyStr (''No execution captured from block: '' @ b)]) s1 =
     (Inr rs, st')"
    by (auto split: prod.splits sum.splits)
  have "PyNone \<notin> set (acc @ [if r \<noteq> PyNone then r
      else PyStr (''No execution captured from block: '' @ b)])"
    using Cons.prems(2) by auto
  from Cons.IH[OF rest this] show ?case .
qed



lemma execute_tool_command_setup_error:
  "resolve_tool self rt tool_name st = (Inl e, s1) \<Longrightarrow>
   execute_tool_command self rt tool_name cmd st =
     (if is_exit e then Propagated e
      else ErrorText (''Error in execute_tool_command: '' @ exc_str e), s1)"
  by (simp add: execute_tool_command_def)

lemma execute_tool_command_block_error:
  assumes "resolve_tool self rt tool_name st = (Inr tool, s1)"
    and "split_commands cmd = before @ block # rest"
    and "run_blocks self (exec rt) tool before [] s1 = (Inr acc, s2)"
    and "execute_with_timeout self (exec rt) block [''tool'' \<mapsto> tool] s2 = (Inl e, s3)"
  shows "execute_tool_command self rt tool_name cmd st =
     (if is_exit e then Propagated e
      else ErrorText (''Error in execute_tool_command: '' @ exc_str e), s3)"
proof -
  from assms(4) have "run_blocks self (exec rt) tool (block # rest) acc s2 = (Inl e, s3)"
    by simp
  with assms(3) have "run_blocks self (exec rt) tool (before @ block # rest) [] s1 = (Inl e, s3)"
    by (simp add: run_blocks_append)
  with assms(1,2) show ?thesis
    by (simp add: execute_tool_command_def)
qed

lemma execute_tool_command_list:
  assumes "resolve_tool self rt tool_name st = (Inr tool, s1)"
    and "run_blocks self (exec rt) tool (split_commands cmd) [] s1 = (Inr rs, s2)"
  shows "execute_tool_command self rt tool_name cmd st = (Executions rs, s2) \<and>
    length rs = length (split_commands cmd)"
  using assms run_blocks_length[OF assms(2)] by (simp add: execute_tool_command_def)

lemma execute_tool_command_executions:
  assumes "fst (execute_tool_command self rt tool_name cmd st) = Executions rs"
  shows "\<exists>tool s1 s2. resolve_tool self rt tool_name st = (Inr tool, s1) \<and>
    run_blocks self (exec rt) tool (split_commands cmd) [] s1 = (Inr rs, s2)"
proof (cases "resolve_tool self rt tool_name st")
  case (Pair out s1)
  show ?thesis
  proof (cases out)
    case (Inl e)
    with Pair assms show ?thesis
      by (simp add: execute_tool_command_def split: if_splits)
  next
    case (Inr tool)
    obtain res s2 where r: "run_blocks self (exec rt) tool (split_commands cmd) [] s1 = (res, s2)"
      by (cases "run_blocks self (exec rt) tool (split_commands cmd) [] s1")
    show ?thesis
    proof (cases res)
      case (Inl e)
      with Pair Inr r assms show ?thesis
        by (simp add: execute_tool_command_def split: if_splits)
    next
      case inr: (Inr rs')
      with Pair Inr r assms show ?thesis
        by (simp add: execute_tool_command_def)
    qed
  qed
qed

lemma execute_tool_command_cases:
  "(\<exists>rs s. execute_tool_command self rt tool_name cmd st = (Executions rs, s) \<and>
      length rs = length (split_commands cmd)) \<or>
   (\<exists>e s. \<not> is_exit e \<and> execute_tool_command self rt tool_name cmd st =
      (ErrorText (''Error in execute_tool_command: '' @ exc_str e), s)) \<or>
   (\<exists>e s. is_exit e \<and> execute_tool_command self rt tool_name cmd st = (Propagated e, s))"
proof (cases "resolve_tool self rt tool_name st")
  case (Pair out s1)
  show ?thesis
  proof (cases out)
    case (Inl e)
    with Pair execute_tool_command_setup_error[of self rt tool_name st e s1 cmd] show ?thesis
      by (cases "is_exit e") auto
  next
    case (Inr tool)
    obtain res s2 where r: "run_blocks self (exec rt) tool (split_commands cmd) [] s1 = (res, s2)"
      by (cases "run_blocks self (exec rt) tool (split_commands cmd) [] s1")
    show ?thesis
    proof (cases res)
      case (Inl e)
      with Pair Inr r have "execute_tool_command self rt tool_name cmd st =
          (if is_exit e then Propagated e
           else ErrorText (''Error in execute_tool_command: '' @ exc_str e), s2)"
        by (simp add: execute_tool_command_def)
      then show ?thesis by (cases "is_exit e") auto
    next
      case inr: (Inr rs)
      with Pair Inr r execute_tool_command_list[of self rt tool_name st tool s1 cmd rs s2]
      show ?thesis by simp
    qed
  qed
qed

section \<open>A sample environment\<close>

text \<open>
  An environment to run the coordinator in: every module imports, every class
  constructs a tool that needs no engine, and the tool's \<open>execute(q=x)\<close> returns
  \<open>x\<close>, \<open>execute()\<close> returns \<open>None\<close> and \<open>execute(wait=True)\<close> returns
  \<open>'late'\<close> after 300 seconds. \<open>env\<close> holds the module's globals. \<open>exec_sample\<close>
  is what the interpreter does, when nothing interrupts it, on the few blocks the
  examples use: a \<open>global\<close> declaration makes the assignment bind the name in the
  globals, an assignment without it binds in the local scope, a name is looked up in
  the local scope and then in the globals, and \<open>sys.exit(3)\<close> raises \<open>SystemExit\<close>.
  Every block but the waiting one takes one second, and none catches an exception
  raised in it.
\<close>

definition leak_first :: string where
  "leak_first =
     ''global v'' @ [newline] @ ''v = 1'' @ [newline] @ ''execution = tool.execute(q=v)''"

definition local_first :: string where
  "local_first = ''v = 1'' @ [newline] @ ''execution = tool.execute(q=v)''"

definition uses_v :: string where
  "uses_v = ''execution = tool.execute(q=v)''"

definition waits :: string where
  "waits = ''execution = tool.execute(wait=True)''"

definition returns_none :: string where
  "returns_none = ''execution = tool.execute()''"

definition binds_other :: string where
  "binds_other = ''my_execution = tool.execute()''"

definition exits :: string where
  "exits = ''import sys'' @ [newline] @ ''sys.exit(3)'' @ [newline] @ ''execution = tool.execute()''"

definition name_error_v :: string where
  "name_error_v = ''name '' @ [CHR 0x27] @ ''v'' @ [CHR 0x27] @ '' is not defined''"

definition exec_sample ::
  "string \<Rightarrow> scope \<Rightarrow> scope pystate \<Rightarrow> (pyexc + scope) \<times> scope pystate"
where
  "exec_sample block ctx st =
     (if block = leak_first then
        (Inr (ctx(''execution'' \<mapsto> PyInt 1)), st\<lparr>env := (env st)(''v'' \<mapsto> PyInt 1)\<rparr>)
      else if block = local_first then
        (Inr (ctx(''v'' \<mapsto> PyInt 1, ''execution'' \<mapsto> PyInt 1)), st)
      else if block = uses_v then
        (case (case ctx ''v'' of Some x \<Rightarrow> Some x | None \<Rightarrow> env st ''v'') of
           Some x \<Rightarrow> (Inr (ctx(''execution'' \<mapsto> x)), st)
         | None \<Rightarrow> (Inl (Failure name_error_v), st))
      else if block = returns_none then
        (Inr (ctx(''execution'' \<mapsto> PyNone)), st)
      else if block = binds_other then
        (Inr (ctx(''my_execution'' \<mapsto> PyNone)), st)
      else if block = waits then
        (Inr (ctx(''execution'' \<mapsto> PyStr ''late'')), st)
      else if block = exits then
        (Inl (SystemExiting ''3''), st)
      else (Inl (Failure ''invalid syntax''), st))"

definition run_block_sample :: "string \<Rightarrow> scope \<Rightarrow> scope pystate \<Rightarrow> scope block_run" where
  "run_block_sample block ctx st =
     \<lparr>needs = (if block = waits then 300 else 1),
      completes = exec_sample block ctx st,
      interrupted = (\<lambda>e. (Inl e, st))\<rparr>"

definition rt_sample :: "(unit, unit, scope) runtime" where
  "rt_sample =
     \<lparr>import_module = (\<lambda>name st. (Inr (), st)),
      getattr_class = (\<lambda>m name st. (Inr (), st)),
      require_llm_engine = (\<lambda>c. False),
      construct = (\<lambda>c model_string st. (Inr (PyRef 0), st)),
      lookup_set_custom_output_dir = (\<lambda>tool st. (Inr (), st)),
      set_custom_output_dir = (\<lambda>tool dir st. (Inr (), st)),
      run_block = run_block_sample\<rparr>"

definition self_sample :: executor where
  "self_sample =
     \<lparr>llm_engine_name = ''gpt-4o'', root_cache_dir = ''solver_cache'', num_threads = 1,
      max_time = 120, max_output_length = 100000, verbose = False,
      query_cache_dir = Some ''solver_cache/q''\<rparr>"

definition st_sample :: "scope pystate" where
  "st_sample = \<lparr>env = Map.empty, alarm = 0, alarm_handler = False, main_thread = True\<rparr>"

lemma split_sample_local:
  "split_commands (local_first @ [newline] @ uses_v) = [local_first] @ uses_v # []"
  by code_simp

lemma split_sample_leak:
  "split_commands (leak_first @ [newline] @ uses_v) = [leak_first, uses_v]"
  by code_simp

lemma resolve_sample:
  "resolve_tool self_sample rt_sample ''Echo_Tool'' st_sample = (Inr (PyRef 0), st_sample)"
  by (simp add: resolve_tool_def rt_sample_def self_sample_def)

lemmas sample_blocks = waits_def returns_none_def binds_other_def exits_def

lemmas sample_defs = rt_sample_def self_sample_def st_sample_def exec_sample_def
  leak_first_def local_first_def uses_v_def sample_blocks execute_with_timeout_def
  signal_signal_def signal_alarm_def exec_def run_block_sample_def

lemma can_arm_sample: "can_arm self_sample st_sample"
  by (simp add: can_arm_def self_sample_def st_sample_def)

lemma armed_sample:
  "armed self_sample st = st\<lparr>alarm_handler := True, alarm := 120\<rparr>"
  by (simp add: armed_def self_sample_def)


section \<open>Errors and results of the coordinator\<close>

text \<open>
  Claim C3. When a statement before the loop raises (the import, the class lookup, the
  constructor, the look-up of \<open>set_custom_output_dir\<close>, the reading of
  \<open>query_cache_dir\<close>, the call that sets the output directory), when the timer of a
  block cannot be set up, or when a block raises anything but a timeout, the results
  collected so far are gone. What \<open>execute_tool_command\<close> then gives depends on the
  class of the exception: for one derived from \<open>Exception\<close> it returns the one error
  text of its handler; one derived from \<open>BaseException\<close> only (\<open>SystemExit\<close>,
  \<open>KeyboardInterrupt\<close>) passes the handler and reaches the caller, so that neither a
  text nor a list is returned. Otherwise it returns a list with one entry for each block
  of the splitter. These three are all that can happen.
\<close>

theorem execute_tool_command_error_or_list:
  "(import_module rt (tool_module_name tool_name) st = (Inl e, s1) \<longrightarrow>
      execute_tool_command self rt tool_name cmd st =
        (if is_exit e then Propagated e
         else ErrorText (''Error in execute_tool_command: '' @ exc_str e), s1)) \<and>
   (import_module rt (tool_module_name tool_name) st = (Inr m, s1) \<and>
    getattr_class rt m tool_name s1 = (Inl e, s2) \<longrightarrow>
      execute_tool_command self rt tool_name cmd st =
        (if is_exit e then Propagated e
         else ErrorText (''Error in execute_tool_command: '' @ exc_str e), s2)) \<and>
   (import_module rt (tool_module_name tool_name) st = (Inr m, s1) \<and>
    getattr_class rt m tool_name s1 = (Inr c, s2) \<and>
    construct rt c (if require_llm_engine rt c then Some (llm_engine_name self) else None) s2 =
      (Inl e, s3) \<longrightarrow>
      execute_tool_command self rt tool_name cmd st =
        (if is_exit e then Propagated e
         else ErrorText (''Error in execute_tool_command: '' @ exc_str e), s3)) \<and>
   (import_module rt (tool_module_name tool_name) st = (Inr m, s1) \<and>
    getattr_class rt m tool_name s1 = (Inr c, s2) \<and>
    construct rt c (if require_llm_engine rt c then Some (llm_engine_name self) else None) s2 =
      (Inr tool, s3) \<and>
    lookup_set_custom_output_dir rt tool s3 = (Inl e, s4) \<longrightarrow>
      execute_tool_command self rt tool_name cmd st =
        (if is_exit e then Propagated e
         else ErrorText (''Error in execute_tool_command: '' @ exc_str e), s4)) \<and>
   (import_module rt (tool_module_name tool_name) st = (Inr m, s1) \<and>
    getattr_class rt m tool_name s1 = (Inr c, s2) \<and>
    construct rt c (if require_llm_engine rt c then Some (llm_engine_name self) else None) s2 =
      (Inr tool, s3) \<and>
    lookup_set_custom_output_dir rt tool s3 = (Inr u, s4) \<and>
    query_cache_dir self = None \<longrightarrow>
      execute_tool_command self rt tool_name cmd st =
        (ErrorText (''Error in execute_tool_command: '' @ no_query_cache_dir), s4)) \<and>
   (import_module rt (tool_module_name tool_name) st = (Inr m, s1) \<and>
    getattr_class rt m tool_name s1 = (Inr c, s2) \<and>
    construct rt c (if require_llm_engine rt c then Some (llm_engine_name self) else None) s2 =
      (Inr tool, s3) \<and>
    lookup_set_custom_output_dir rt tool s3 = (Inr u, s4) \<and>
    query_cache_dir self = Some dir \<and>
    set_custom_output_dir rt tool dir s4 = (Inl e, s5) \<longrightarrow>
      execute_tool_command self rt tool_name cmd st =
        (if is_exit e then Propagated e
         else ErrorText (''Error in execute_tool_command: '' @ exc_str e), s5)) \<and>
   (resolve_tool self rt tool_name st = (Inr tool, t1) \<and>
    split_commands cmd = before @ block # rest \<and>
    run_blocks self (exec rt) tool before [] t1 = (Inr acc, t2) \<and>
    \<not> can_arm self t2 \<longrightarrow>
      execute_tool_command self rt tool_name cmd st =
        (if main_thread t2
         then (ErrorText (''Error in execute_tool_command: '' @ alarm_overflow_text),
               t2\<lparr>alarm_handler := True\<rparr>)
         else (ErrorText (''Error in execute_tool_command: '' @ signal_thread_text), t2))) \<and>
   (resolve_tool self rt tool_name st = (Inr tool, t1) \<and>
    split_commands cmd = before @ block # rest \<and>
    run_blocks self (exec rt) tool before [] t1 = (Inr acc, t2) \<and>
    can_arm self t2 \<and>
    exec rt block [''tool'' \<mapsto> tool] (armed self t2) = (Inl e, t3) \<and>
    (\<forall>msg. e \<noteq> TimeoutError msg) \<longrightarrow>
      execute_tool_command self rt tool_name cmd st =
        (if is_exit e then Propagated e
         else ErrorText (''Error in execute_tool_command: '' @ exc_str e), t3\<lparr>alarm := 0\<rparr>)) \<and>
   (resolve_tool self rt tool_name st = (Inr tool, t1) \<and>
    run_blocks self (exec rt) tool (split_commands cmd) [] t1 = (Inr rs, t2) \<longrightarrow>
      execute_tool_command self rt tool_name cmd st = (Executions rs, t2) \<and>
      length rs = length (split_commands cmd)) \<and>
   ((\<exists>rs' s. execute_tool_command self rt tool_name cmd st = (Executions rs', s) \<and>
       length rs' = length (split_commands cmd)) \<or>
    (\<exists>e' s. \<not> is_exit e' \<and> execute_tool_command self rt tool_name cmd st =
       (ErrorText (''Error in execute_tool_command: '' @ exc_str e'), s)) \<or>
    (\<exists>e' s. is_exit e' \<and> execute_tool_command self rt tool_name cmd st = (Propagated e', s)))"
proof -
  have stage: "\<And>x s. resolve_tool self rt tool_name st = (Inl x, s) \<Longrightarrow>
      execute_tool_command self rt tool_name cmd st =
        (if is_exit x then Propagated x
         else ErrorText (''Error in execute_tool_command: '' @ exc_str x), s)"
    by (rule execute_tool_command_setup_error)
  have a: "import_module rt (tool_module_name tool_name) st = (Inl e, s1) \<longrightarrow>
      execute_tool_command self rt tool_name cmd st =
        (if is_exit e then Propagated e
         else ErrorText (''Error in execute_tool_command: '' @ exc_str e), s1)"
    using stage[of e s1] by (simp add: resolve_tool_def)
  have b: "import_module rt (tool_module_name tool_name) st = (Inr m, s1) \<and>
    getattr_class rt m tool_name s1 = (Inl e, s2) \<longrightarrow>
      execute_tool_command self rt tool_name cmd st =
        (if is_exit e then Propagated e
         else ErrorText (''Error in execute_tool_command: '' @ exc_str e), s2)"
    using stage[of e s2] by (simp add: resolve_tool_def)
  have c: "import_module rt (tool_module_name tool_name) st = (Inr m, s1) \<and>
    getattr_class rt m tool_name s1 = (Inr c, s2) \<and>
    construct rt c (if require_llm_engine rt c then Some (llm_engine_name self) else None) s2 =
      (Inl e, s3) \<longrightarrow>
      execute_tool_command self rt tool_name cmd st =
        (if is_exit e then Propagated e
         else ErrorText (''Error in execute_tool_command: '' @ exc_str e), s3)"
    using stage[of e s3] by (simp add: resolve_tool_def)
  have d: "import_module rt (tool_module_name tool_name) st = (Inr m, s1) \<and>
    getattr_class rt m tool_name s1 = (Inr c, s2) \<and>
    construct rt c (if require_llm_engine rt c then Some (llm_engine_name self) else None) s2 =
      (Inr tool, s3) \<and>
    lookup_set_custom_output_dir rt tool s3 = (Inl e, s4) \<longrightarrow>
      execute_tool_command self rt tool_name cmd st =
        (if is_exit e then Propagated e
         else ErrorText (''Error in execute_tool_command: '' @ exc_str e), s4)"
    using stage[of e s4] by (simp add: resolve_tool_def)
  have f: "import_module rt (tool_module_name tool_name) st = (Inr m, s1) \<and>
    getattr_class rt m tool_name s1 = (Inr c, s2) \<and>
    construct rt c (if require_llm_engine rt c then Some (llm_engine_name self) else None) s2 =
      (Inr tool, s3) \<and>
    lookup_set_custom_output_dir rt tool s3 = (Inr u, s4) \<and>
    query_cache_dir self = None \<longrightarrow>
      execute_tool_command self rt tool_name cmd st =
        (ErrorText (''Error in execute_tool_command: '' @ no_query_cache_dir), s4)"
    using stage[of "Failure no_query_cache_dir" s4] by (simp add: resolve_tool_def)
  have g: "import_module rt (tool_module_name tool_name) st = (Inr m, s1) \<and>
    getattr_class rt m tool_name s1 = (Inr c, s2) \<and>
    construct rt c (if require_llm_engine rt c then Some (llm_engine_name self) else None) s2 =
      (Inr tool, s3) \<and>
    lookup_set_custom_output_dir rt tool s3 = (Inr u, s4) \<and>
    query_cache_dir self = Some dir \<and>
    set_custom_output_dir rt tool dir s4 = (Inl e, s5) \<longrightarrow>
      execute_tool_command self rt tool_name cmd st =
        (if is_exit e then Propagated e
         else ErrorText (''Error in execute_tool_command: '' @ exc_str e), s5)"
    using stage[of e s5] by (simp add: resolve_tool_def)
  have h: "resolve_tool self rt tool_name st = (Inr tool, t1) \<and>
    split_commands cmd = before @ block # rest \<and>
    run_blocks self (exec rt) tool before [] t1 = (Inr acc, t2) \<and>
    \<not> can_arm self t2 \<longrightarrow>
      execute_tool_command self rt tool_name cmd st =
        (if main_thread t2
         then (ErrorText (''Error in execute_tool_command: '' @ alarm_overflow_text),
               t2\<lparr>alarm_handler := True\<rparr>)
         else (ErrorText (''Error in execute_tool_command: '' @ signal_thread_text), t2))"
  proof (intro impI, elim conjE)
    assume r: "resolve_tool self rt tool_name st = (Inr tool, t1)"
      and s: "split_commands cmd = before @ block # rest"
      and b: "run_blocks self (exec rt) tool before [] t1 = (Inr acc, t2)"
      and n: "\<not> can_arm self t2"
    show "execute_tool_command self rt tool_name cmd st =
        (if main_thread t2
         then (ErrorText (''Error in execute_tool_command: '' @ alarm_overflow_text),
               t2\<lparr>alarm_handler := True\<rparr>)
         else (ErrorText (''Error in execute_tool_command: '' @ signal_thread_text), t2))"
    proof (cases "main_thread t2")
      case True
      with execute_with_timeout_unarmed[OF n, of "exec rt" block "[''tool'' \<mapsto> tool]"]
      have "execute_with_timeout self (exec rt) block [''tool'' \<mapsto> tool] t2 =
          (Inl (Failure alarm_overflow_text), t2\<lparr>alarm_handler := True\<rparr>)"
        by simp
      from execute_tool_command_block_error[OF r s b this] True show ?thesis by simp
    next
      case False
      with execute_with_timeout_unarmed[OF n, of "exec rt" block "[''tool'' \<mapsto> tool]"]
      have "execute_with_timeout self (exec rt) block [''tool'' \<mapsto> tool] t2 =
          (Inl (Failure signal_thread_text), t2)"
        by simp
      from execute_tool_command_block_error[OF r s b this] False show ?thesis by simp
    qed
  qed
  have i: "resolve_tool self rt tool_name st = (Inr tool, t1) \<and>
    split_commands cmd = before @ block # rest \<and>
    run_blocks self (exec rt) tool before [] t1 = (Inr acc, t2) \<and>
    can_arm self t2 \<and>
    exec rt block [''tool'' \<mapsto> tool] (armed self t2) = (Inl e, t3) \<and>
    (\<forall>msg. e \<noteq> TimeoutError msg) \<longrightarrow>
      execute_tool_command self rt tool_name cmd st =
        (if is_exit e then Propagated e
         else ErrorText (''Error in execute_tool_command: '' @ exc_str e), t3\<lparr>alarm := 0\<rparr>)"
  proof (intro impI, elim conjE)
    assume r: "resolve_tool self rt tool_name st = (Inr tool, t1)"
      and s: "split_commands cmd = before @ block # rest"
      and b: "run_blocks self (exec rt) tool before [] t1 = (Inr acc, t2)"
      and ca: "can_arm self t2"
      and x: "exec rt block [''tool'' \<mapsto> tool] (armed self t2) = (Inl e, t3)"
      and nt: "\<forall>msg. e \<noteq> TimeoutError msg"
    from execute_with_timeout_raised[where ex = "exec rt" and block = block
        and ctx = "[''tool'' \<mapsto> tool]", OF ca x nt]
    have "execute_with_timeout self (exec rt) block [''tool'' \<mapsto> tool] t2 =
        (Inl e, t3\<lparr>alarm := 0\<rparr>)" .
    from execute_tool_command_block_error[OF r s b this]
    show "execute_tool_command self rt tool_name cmd st =
        (if is_exit e then Propagated e
         else ErrorText (''Error in execute_tool_command: '' @ exc_str e), t3\<lparr>alarm := 0\<rparr>)" .
  qed
  have j: "resolve_tool self rt tool_name st = (Inr tool, t1) \<and>
    run_blocks self (exec rt) tool (split_commands cmd) [] t1 = (Inr rs, t2) \<longrightarrow>
      execute_tool_command self rt tool_name cmd st = (Executions rs, t2) \<and>
      length rs = length (split_commands cmd)"
    using execute_tool_command_list[of self rt tool_name st tool t1 cmd rs t2] by blast
  note k = execute_tool_command_cases[of self rt tool_name cmd st]
  from a b c d f g h i j k show ?thesis by (intro conjI)
qed


lemma execute_tool_command_fst:
  "resolve_tool self rt tool_name st = (Inr tool, s1) \<Longrightarrow>
   fst (execute_tool_command self rt tool_name cmd st) =
     (case fst (run_blocks self (exec rt) tool (split_commands cmd) [] s1) of
        Inr rs \<Rightarrow> Executions rs
      | Inl e \<Rightarrow> if is_exit e then Propagated e
                 else ErrorText (''Error in execute_tool_command: '' @ exc_str e))"
  by (simp add: execute_tool_command_def split: prod.splits sum.splits)

lemma resolve_sample_any:
  "resolve_tool self_sample rt_sample name st = (Inr (PyRef 0), st)"
  by (simp add: resolve_tool_def rt_sample_def self_sample_def)

lemma split_sample_uses: "split_commands uses_v = [] @ uses_v # []"
  by code_simp

lemma split_sample_exits: "split_commands exits = [exits]"
  by code_simp

theorem execute_tool_command_error_or_list_witness:
  "fst (execute_tool_command self_sample
      (rt_sample\<lparr>import_module := (\<lambda>name st. (Inl (Failure ''No module named tools.echo''), st))\<rparr>)
      ''Echo_Tool'' uses_v st_sample) =
     ErrorText ''Error in execute_tool_command: No module named tools.echo'' \<and>
   fst (execute_tool_command (self_sample\<lparr>query_cache_dir := None\<rparr>) rt_sample
      ''Echo_Tool'' uses_v st_sample) =
     ErrorText (''Error in execute_tool_command: '' @ no_query_cache_dir) \<and>
   fst (execute_tool_command self_sample rt_sample ''Echo_Tool'' uses_v
      (st_sample\<lparr>main_thread := False\<rparr>)) =
     ErrorText
       ''Error in execute_tool_command: signal only works in main thread of the main interpreter'' \<and>
   fst (execute_tool_command self_sample rt_sample ''Echo_Tool''
      (local_first @ [newline] @ uses_v) st_sample) =
     ErrorText (''Error in execute_tool_command: '' @ name_error_v) \<and>
   fst (execute_tool_command self_sample rt_sample ''Echo_Tool''
      (leak_first @ [newline] @ uses_v) st_sample) = Executions [PyInt 1, PyInt 1]"
proof -
  let ?rt1 = "rt_sample\<lparr>import_module :=
    (\<lambda>name st. (Inl (Failure ''No module named tools.echo''), st))\<rparr>"
  let ?e1 = "Failure ''No module named tools.echo''"
  have 1: "execute_tool_command self_sample ?rt1 ''Echo_Tool'' uses_v st_sample =
      (if is_exit ?e1 then Propagated ?e1
       else ErrorText (''Error in execute_tool_command: '' @ exc_str ?e1), st_sample)"
    by (rule mp[OF execute_tool_command_error_or_list[where rt = ?rt1
          and tool_name = "''Echo_Tool''" and st = st_sample and e = ?e1 and ?s1.0 = st_sample
          and self = self_sample and cmd = uses_v, THEN conjunct1]])
       simp
  let ?self2 = "self_sample\<lparr>query_cache_dir := None\<rparr>"
  have 2: "execute_tool_command ?self2 rt_sample ''Echo_Tool'' uses_v st_sample =
      (ErrorText (''Error in execute_tool_command: '' @ no_query_cache_dir), st_sample)"
    by (rule mp[OF execute_tool_command_error_or_list[where rt = rt_sample
          and tool_name = "''Echo_Tool''" and st = st_sample and ?s1.0 = st_sample
          and ?s2.0 = st_sample and ?s3.0 = st_sample and ?s4.0 = st_sample
          and m = "()" and c = "()" and u = "()" and tool = "PyRef 0"
          and self = ?self2 and cmd = uses_v,
          THEN conjunct2, THEN conjunct2, THEN conjunct2, THEN conjunct2, THEN conjunct1]])
       (simp add: rt_sample_def self_sample_def)
  let ?st3 = "st_sample\<lparr>main_thread := False\<rparr>"
  have r3: "run_blocks self_sample (exec rt_sample) (PyRef 0) [] [] ?st3 = (Inr [], ?st3)"
    by simp
  have n3: "\<not> can_arm self_sample ?st3"
    by (simp add: can_arm_def)
  have 3: "execute_tool_command self_sample rt_sample ''Echo_Tool'' uses_v ?st3 =
      (if main_thread ?st3
       then (ErrorText (''Error in execute_tool_command: '' @ alarm_overflow_text),
             ?st3\<lparr>alarm_handler := True\<rparr>)
       else (ErrorText (''Error in execute_tool_command: '' @ signal_thread_text), ?st3))"
    by (rule mp[OF execute_tool_command_error_or_list[where rt = rt_sample
          and tool_name = "''Echo_Tool''" and st = ?st3 and self = self_sample and cmd = uses_v
          and tool = "PyRef 0" and ?t1.0 = ?st3 and before = "[]" and block = uses_v
          and rest = "[]" and acc = "[]" and ?t2.0 = ?st3,
          THEN conjunct2, THEN conjunct2, THEN conjunct2, THEN conjunct2, THEN conjunct2,
          THEN conjunct2, THEN conjunct1]])
       (rule conjI[OF resolve_sample_any conjI[OF split_sample_uses conjI[OF r3 n3]]])
  let ?t2 = "st_sample\<lparr>alarm_handler := True, alarm := 0\<rparr>"
  have run1: "run_blocks self_sample (exec rt_sample) (PyRef 0) [local_first] [] st_sample =
      (Inr [PyInt 1], ?t2)"
    by (simp add: sample_defs)
  have ca: "can_arm self_sample ?t2"
    by (simp add: can_arm_def self_sample_def st_sample_def)
  have ex2: "exec rt_sample uses_v [''tool'' \<mapsto> PyRef 0] (armed self_sample ?t2) =
      (Inl (Failure name_error_v), armed self_sample ?t2)"
    by (simp add: sample_defs armed_def)
  have nt: "\<forall>msg. Failure name_error_v \<noteq> TimeoutError msg"
    by simp
  have 4: "execute_tool_command self_sample rt_sample ''Echo_Tool''
      (local_first @ [newline] @ uses_v) st_sample =
      (if is_exit (Failure name_error_v) then Propagated (Failure name_error_v)
       else ErrorText (''Error in execute_tool_command: '' @ exc_str (Failure name_error_v)),
       (armed self_sample ?t2)\<lparr>alarm := 0\<rparr>)"
    by (rule mp[OF execute_tool_command_error_or_list[where rt = rt_sample
          and tool_name = "''Echo_Tool''" and st = st_sample and self = self_sample
          and cmd = "local_first @ [newline] @ uses_v"
          and tool = "PyRef 0" and ?t1.0 = st_sample and before = "[local_first]"
          and block = uses_v and rest = "[]" and acc = "[PyInt 1]" and ?t2.0 = ?t2
          and e = "Failure name_error_v" and ?t3.0 = "armed self_sample ?t2",
          THEN conjunct2, THEN conjunct2, THEN conjunct2, THEN conjunct2, THEN conjunct2,
          THEN conjunct2, THEN conjunct2, THEN conjunct1]])
       (rule conjI[OF resolve_sample conjI[OF split_sample_local conjI[OF run1
          conjI[OF ca conjI[OF ex2 nt]]]]])
  have run2: "run_blocks self_sample (exec rt_sample) (PyRef 0) [leak_first, uses_v] [] st_sample =
      (Inr [PyInt 1, PyInt 1],
       snd (run_blocks self_sample (exec rt_sample) (PyRef 0) [leak_first, uses_v] [] st_sample))"
    by (simp add: sample_defs)
  have run2': "run_blocks self_sample (exec rt_sample) (PyRef 0)
      (split_commands (leak_first @ [newline] @ uses_v)) [] st_sample =
      (Inr [PyInt 1, PyInt 1],
       snd (run_blocks self_sample (exec rt_sample) (PyRef 0) [leak_first, uses_v] [] st_sample))"
    unfolding split_sample_leak by (rule run2)
  have 5: "execute_tool_command self_sample rt_sample ''Echo_Tool''
      (leak_first @ [newline] @ uses_v) st_sample =
      (Executions [PyInt 1, PyInt 1],
       snd (run_blocks self_sample (exec rt_sample) (PyRef 0) [leak_first, uses_v] [] st_sample)) \<and>
      length [PyInt 1, PyInt 1] = length (split_commands (leak_first @ [newline] @ uses_v))"
    by (rule mp[OF execute_tool_command_error_or_list[where rt = rt_sample
          and tool_name = "''Echo_Tool''" and st = st_sample and self = self_sample
          and cmd = "leak_first @ [newline] @ uses_v"
          and tool = "PyRef 0" and ?t1.0 = st_sample and rs = "[PyInt 1, PyInt 1]"
          and ?t2.0 = "snd (run_blocks self_sample (exec rt_sample) (PyRef 0)
             [leak_first, uses_v] [] st_sample)",
          THEN conjunct2, THEN conjunct2, THEN conjunct2, THEN conjunct2, THEN conjunct2,
          THEN conjunct2, THEN conjunct2, THEN conjunct2, THEN conjunct1]])
       (rule conjI[OF resolve_sample run2'])
  from 1 2 3 4 5 show ?thesis
    by (simp add: signal_thread_text_def)
qed

text \<open>
  Claim C3 has only two outcomes, the error text and the list. A block that calls
  \<open>sys.exit(3)\<close> gives neither: \<open>SystemExit\<close> is not derived from \<open>Exception\<close>,
  so it passes \<open>except Exception\<close> and leaves \<open>execute_tool_command\<close>.
\<close>

theorem system_exit_passes_handler:
  "fst (execute_tool_command self_sample rt_sample ''Echo_Tool'' exits st_sample) =
     Propagated (SystemExiting ''3'')"
proof -
  have r: "fst (run_blocks self_sample (exec rt_sample) (PyRef 0) [exits] [] st_sample) =
      Inl (SystemExiting ''3'')"
    by (simp add: sample_defs)
  show ?thesis
    unfolding execute_tool_command_fst[OF resolve_sample] split_sample_exits r
    by simp
qed


section \<open>Timeouts\<close>









section \<open>No null entry\<close>

text \<open>
  Claim C9. When a block completes and \<open>execution\<close> is unbound in its scope, or bound
  to \<open>None\<close>, the loop appends the text that names the block. So a list of results
  never holds \<open>None\<close>.
\<close>

theorem unbound_execution_placeholder:
  "(can_arm self st \<and> ex block [''tool'' \<mapsto> tool] (armed self st) = (Inr ctx, st') \<and>
    (ctx ''execution'' = None \<or> ctx ''execution'' = Some PyNone) \<longrightarrow>
    run_blocks self ex tool (block # blocks) acc st =
      run_blocks self ex tool blocks
        (acc @ [PyStr (''No execution captured from block: '' @ block)]) (st'\<lparr>alarm := 0\<rparr>)) \<and>
   (run_blocks self ex tool blocks acc st = (Inr rs, st'') \<and> PyNone \<notin> set acc \<longrightarrow>
      PyNone \<notin> set rs) \<and>
   (fst (execute_tool_command self rt tool_name cmd st0) = Executions rs' \<longrightarrow>
      PyNone \<notin> set rs')"
proof -
  have a: "can_arm self st \<and> ex block [''tool'' \<mapsto> tool] (armed self st) = (Inr ctx, st') \<and>
    (ctx ''execution'' = None \<or> ctx ''execution'' = Some PyNone) \<longrightarrow>
    run_blocks self ex tool (block # blocks) acc st =
      run_blocks self ex tool blocks
        (acc @ [PyStr (''No execution captured from block: '' @ block)]) (st'\<lparr>alarm := 0\<rparr>)"
    by (auto simp: execute_with_timeout_armed)
  have c: "fst (execute_tool_command self rt tool_name cmd st0) = Executions rs' \<longrightarrow>
      PyNone \<notin> set rs'"
  proof
    assume "fst (execute_tool_command self rt tool_name cmd st0) = Executions rs'"
    from execute_tool_command_executions[OF this] obtain t s1 s2 where
      "run_blocks self (exec rt) t (split_commands cmd) [] s1 = (Inr rs', s2)"
      by blast
    from run_blocks_no_none[OF this] show "PyNone \<notin> set rs'" by simp
  qed
  show ?thesis
    using a c run_blocks_no_none[of self ex tool blocks acc st rs st'']
    by blast
qed

theorem unbound_execution_placeholder_witness:
  "fst (run_blocks self_sample exec_sample (PyRef 0) [binds_other, returns_none] [] st_sample) =
     Inr [PyStr ''No execution captured from block: my_execution = tool.execute()'',
          PyStr ''No execution captured from block: execution = tool.execute()''] \<and>
   PyNone \<notin> set [PyStr ''No execution captured from block: my_execution = tool.execute()'',
          PyStr ''No execution captured from block: execution = tool.execute()'']"
proof -
  let ?armed = "armed self_sample st_sample"
  have h: "can_arm self_sample st_sample \<and>
      exec_sample binds_other [''tool'' \<mapsto> PyRef 0] ?armed =
      (Inr ([''tool'' \<mapsto> PyRef 0, ''my_execution'' \<mapsto> PyNone]), ?armed) \<and>
      ([''tool'' \<mapsto> PyRef 0, ''my_execution'' \<mapsto> PyNone] ''execution'' = None \<or>
       [''tool'' \<mapsto> PyRef 0, ''my_execution'' \<mapsto> PyNone] ''execution'' = Some PyNone)"
    by (simp add: can_arm_sample exec_sample_def leak_first_def local_first_def uses_v_def
        sample_blocks)
  have r: "run_blocks self_sample exec_sample (PyRef 0) [returns_none]
       ([] @ [PyStr (''No execution captured from block: '' @ binds_other)])
       (?armed\<lparr>alarm := 0\<rparr>) =
     (Inr [PyStr ''No execution captured from block: my_execution = tool.execute()'',
           PyStr ''No execution captured from block: execution = tool.execute()''],
      st_sample\<lparr>alarm_handler := True, alarm := 0\<rparr>)"
    by (simp add: sample_defs armed_def)
  have step: "run_blocks self_sample exec_sample (PyRef 0) (binds_other # [returns_none]) []
       st_sample =
     run_blocks self_sample exec_sample (PyRef 0) [returns_none]
       ([] @ [PyStr (''No execution captured from block: '' @ binds_other)])
       (?armed\<lparr>alarm := 0\<rparr>)"
    by (rule mp[OF unbound_execution_placeholder[where ex = exec_sample
          and block = binds_other and tool = "PyRef 0" and st = st_sample
          and self = self_sample and st' = ?armed, THEN conjunct1] h])
  let ?rs = "[PyStr ''No execution captured from block: my_execution = tool.execute()'',
           PyStr ''No execution captured from block: execution = tool.execute()'']"
  from step r have run: "run_blocks self_sample exec_sample (PyRef 0)
       [binds_other, returns_none] [] st_sample =
       (Inr ?rs, st_sample\<lparr>alarm_handler := True, alarm := 0\<rparr>)"
    by simp
  have "PyNone \<notin> set ?rs"
    by (rule mp[OF unbound_execution_placeholder[where ex = exec_sample
          and tool = "PyRef 0" and st = st_sample and self = self_sample
          and blocks = "[binds_other, returns_none]" and acc = "[]",
          THEN conjunct2, THEN conjunct1]])
       (use run in simp)
  with run show ?thesis by simp
qed

section \<open>The scope of a block\<close>

text \<open>
  Two outcomes of \<open>exec\<close> agree when both raise the same exception, or both complete
  and leave the same value (or none) under \<open>execution\<close>.
\<close>

definition agree_on_execution :: "(pyexc + scope) \<Rightarrow> (pyexc + scope) \<Rightarrow> bool" where
  "agree_on_execution a b =
     (case a of
        Inl e \<Rightarrow> (case b of Inl e' \<Rightarrow> e = e' | Inr c' \<Rightarrow> False)
      | Inr c \<Rightarrow> (case b of Inl e' \<Rightarrow> False | Inr c' \<Rightarrow> c ''execution'' = c' ''execution''))"

lemma execute_with_timeout_agree:
  assumes "\<And>st1. agree_on_execution (fst (ex block ctx st1)) (fst (ex' block ctx st1))"
    and "\<And>st1. snd (ex block ctx st1) = snd (ex' block ctx st1)"
  shows "execute_with_timeout self ex block ctx st = execute_with_timeout self ex' block ctx st"
proof (cases "can_arm self st")
  case True
  let ?st1 = "armed self st"
  obtain a s where e1: "ex block ctx ?st1 = (a, s)" by (cases "ex block ctx ?st1")
  obtain b s' where e2: "ex' block ctx ?st1 = (b, s')" by (cases "ex' block ctx ?st1")
  from assms(2)[of ?st1] e1 e2 have "s' = s" by simp
  with assms(1)[of ?st1] e1 e2 True show ?thesis
    by (auto simp: execute_with_timeout_armed agree_on_execution_def
        split: sum.splits pyexc.splits)
next
  case False
  then show ?thesis by (simp add: execute_with_timeout_unarmed)
qed

text \<open>
  Claim C5 says that no variable bound in one block is visible in a later block. The
  local scope is indeed new for every block and binds only \<open>tool\<close>, and of the scope a
  block leaves behind only \<open>execution\<close> is read. But \<open>exec\<close> also receives the
  module's globals, the same for every block, so a name that a block binds there stays
  visible. What holds is about the local scope: the loop calls \<open>exec\<close> with the
  scope that binds only \<open>tool\<close> and reads only \<open>execution\<close> from the result, so two
  interpreters that agree on that much give the same results.
\<close>

theorem fresh_local_scope:
  assumes "\<forall>block st.
      agree_on_execution (fst (ex block [''tool'' \<mapsto> tool] st))
        (fst (ex' block [''tool'' \<mapsto> tool] st)) \<and>
      snd (ex block [''tool'' \<mapsto> tool] st) = snd (ex' block [''tool'' \<mapsto> tool] st)"
  shows "run_blocks self ex tool blocks acc st = run_blocks self ex' tool blocks acc st"
proof (induction blocks arbitrary: acc st)
  case Nil
  show ?case by simp
next
  case (Cons b bs)
  have "execute_with_timeout self ex b [''tool'' \<mapsto> tool] st =
      execute_with_timeout self ex' b [''tool'' \<mapsto> tool] st"
    using assms by (intro execute_with_timeout_agree) auto
  with Cons.IH show ?case
    by (simp split: prod.splits sum.splits)
qed

text \<open>An interpreter that forgets what a block bound, but for \<open>execution\<close>.\<close>

definition exec_forgetful ::
  "string \<Rightarrow> scope \<Rightarrow> scope pystate \<Rightarrow> (pyexc + scope) \<times> scope pystate"
where
  "exec_forgetful block ctx st =
     (case exec_sample block ctx st of
        (Inr ctx', st') \<Rightarrow> (Inr (ctx' |` {''execution''}), st')
      | (Inl e, st') \<Rightarrow> (Inl e, st'))"

theorem fresh_local_scope_witness:
  "run_blocks self_sample exec_sample (PyRef 0) [local_first, uses_v] [] st_sample =
     run_blocks self_sample exec_forgetful (PyRef 0) [local_first, uses_v] [] st_sample"
proof -
  have "\<forall>block st.
      agree_on_execution (fst (exec_sample block [''tool'' \<mapsto> PyRef 0] st))
        (fst (exec_forgetful block [''tool'' \<mapsto> PyRef 0] st)) \<and>
      snd (exec_sample block [''tool'' \<mapsto> PyRef 0] st) =
        snd (exec_forgetful block [''tool'' \<mapsto> PyRef 0] st)"
    by (auto simp: exec_forgetful_def agree_on_execution_def split: prod.splits sum.splits)
  from fresh_local_scope[where ex = exec_sample and ex' = exec_forgetful
      and tool = "PyRef 0", OF this]
  show ?thesis .
qed

text \<open>
  The first block binds \<open>v\<close> as a global; the second block, which binds nothing, reads
  it. Run alone, the second block fails with \<open>NameError\<close>.
\<close>

theorem global_binding_leaks:
  "fst (execute_tool_command self_sample rt_sample ''Echo_Tool''
      (leak_first @ [newline] @ uses_v) st_sample) = Executions [PyInt 1, PyInt 1] \<and>
   fst (execute_tool_command self_sample rt_sample ''Echo_Tool'' uses_v st_sample) =
     ErrorText (''Error in execute_tool_command: '' @ name_error_v)"
proof -
  have s: "split_commands uses_v = [uses_v]"
    by code_simp
  have r1: "fst (run_blocks self_sample (exec rt_sample) (PyRef 0) [leak_first, uses_v] []
      st_sample) = Inr [PyInt 1, PyInt 1]"
    by (simp add: sample_defs)
  have r2: "fst (run_blocks self_sample (exec rt_sample) (PyRef 0) [uses_v] [] st_sample) =
      Inl (Failure name_error_v)"
    by (simp add: sample_defs)
  show ?thesis
    unfolding execute_tool_command_fst[OF resolve_sample] split_sample_leak s r1 r2
    by simp
qed

section \<open>What a pattern can match\<close>

text \<open>
  \<open>sem r m rest\<close>: the pattern \<open>r\<close> can match the text \<open>m\<close> when \<open>rest\<close> follows it.
  For a pattern without \<open>^\<close> and without a group this is all there is to
  \<open>rx_match\<close>, but for the order of the list.
\<close>

fun sem :: "rx \<Rightarrow> string \<Rightarrow> string \<Rightarrow> bool" where
  "sem (Lit w) m rest = (m = w)"
| "sem (Star P) m rest = (\<forall>c\<in>set m. P c)"
| "sem (StarLazy P) m rest = (\<forall>c\<in>set m. P c)"
| "sem (Seq a b) m rest = (\<exists>m1 m2. m = m1 @ m2 \<and> sem a m1 (m2 @ rest) \<and> sem b m2 rest)"
| "sem (Alt a b) m rest = (sem a m rest \<or> sem b m rest)"
| "sem Bol m rest = False"
| "sem Eol m rest = (m = [] \<and> (rest = [] \<or> rest = [newline]))"
| "sem (Grp r) m rest = False"

fun plain :: "rx \<Rightarrow> bool" where
  "plain (Seq a b) = (plain a \<and> plain b)"
| "plain (Alt a b) = (plain a \<and> plain b)"
| "plain Bol = False"
| "plain (Grp r) = False"
| "plain r = True"

lemma in_star_greedy:
  "st \<in> set (star_greedy P n s g) \<longleftrightarrow>
     (\<exists>m rest. s = m @ rest \<and> (\<forall>c\<in>set m. P c) \<and> st = (n + length m, rest, g))"
proof (induction s arbitrary: n)
  case Nil
  then show ?case by auto
next
  case (Cons c cs)
  show ?case
  proof
    assume "st \<in> set (star_greedy P n (c # cs) g)"
    then have "st = (n, c # cs, g) \<or> (P c \<and> st \<in> set (star_greedy P (Suc n) cs g))"
      by (auto split: if_splits)
    then show "\<exists>m rest. c # cs = m @ rest \<and> (\<forall>c\<in>set m. P c) \<and> st = (n + length m, rest, g)"
    proof
      assume "st = (n, c # cs, g)"
      then show ?thesis by (rule_tac x = "[]" in exI) simp
    next
      assume 2: "P c \<and> st \<in> set (star_greedy P (Suc n) cs g)"
      with Cons.IH[of "Suc n"] obtain m rest where
        "cs = m @ rest" "\<forall>c\<in>set m. P c" "st = (Suc n + length m, rest, g)"
        by blast
      with 2 show ?thesis by (rule_tac x = "c # m" in exI) simp
    qed
  next
    assume "\<exists>m rest. c # cs = m @ rest \<and> (\<forall>c\<in>set m. P c) \<and> st = (n + length m, rest, g)"
    then obtain m rest where m: "c # cs = m @ rest" "\<forall>c\<in>set m. P c"
      "st = (n + length m, rest, g)"
      by blast
    show "st \<in> set (star_greedy P n (c # cs) g)"
    proof (cases m)
      case Nil
      with m have "st = (n, c # cs, g)" by simp
      then show ?thesis by simp
    next
      case (Cons c' m')
      with m have "c' = c" "cs = m' @ rest" "P c" "\<forall>c\<in>set m'. P c"
        "st = (Suc n + length m', rest, g)"
        by auto
      with Cons.IH[of "Suc n"] show ?thesis by auto
    qed
  qed
qed

lemma in_star_lazy:
  "st \<in> set (star_lazy P n s g) \<longleftrightarrow>
     (\<exists>m rest. s = m @ rest \<and> (\<forall>c\<in>set m. P c) \<and> st = (n + length m, rest, g))"
proof (induction s arbitrary: n)
  case Nil
  then show ?case by auto
next
  case (Cons c cs)
  show ?case
  proof
    assume "st \<in> set (star_lazy P n (c # cs) g)"
    then have "st = (n, c # cs, g) \<or> (P c \<and> st \<in> set (star_lazy P (Suc n) cs g))"
      by (auto split: if_splits)
    then show "\<exists>m rest. c # cs = m @ rest \<and> (\<forall>c\<in>set m. P c) \<and> st = (n + length m, rest, g)"
    proof
      assume "st = (n, c # cs, g)"
      then show ?thesis by (rule_tac x = "[]" in exI) simp
    next
      assume 2: "P c \<and> st \<in> set (star_lazy P (Suc n) cs g)"
      with Cons.IH[of "Suc n"] obtain m rest where
        "cs = m @ rest" "\<forall>c\<in>set m. P c" "st = (Suc n + length m, rest, g)"
        by blast
      with 2 show ?thesis by (rule_tac x = "c # m" in exI) simp
    qed
  next
    assume "\<exists>m rest. c # cs = m @ rest \<and> (\<forall>c\<in>set m. P c) \<and> st = (n + length m, rest, g)"
    then obtain m rest where m: "c # cs = m @ rest" "\<forall>c\<in>set m. P c"
      "st = (n + length m, rest, g)"
      by blast
    show "st \<in> set (star_lazy P n (c # cs) g)"
    proof (cases m)
      case Nil
      with m have "st = (n, c # cs, g)" by simp
      then show ?thesis by simp
    next
      case (Cons c' m')
      with m have "c' = c" "cs = m' @ rest" "P c" "\<forall>c\<in>set m'. P c"
        "st = (Suc n + length m', rest, g)"
        by auto
      with Cons.IH[of "Suc n"] show ?thesis by auto
    qed
  qed
qed

lemma rx_match_sem:
  "plain r \<Longrightarrow>
   (n', s', g') \<in> set (rx_match r (n, s, g)) \<longleftrightarrow>
     (\<exists>m. s = m @ s' \<and> n' = n + length m \<and> g' = g \<and> sem r m s')"
proof (induction r arbitrary: n s g n' s' g')
  case (Lit w)
  show ?case by (auto simp: prefix_def)
next
  case (Star P)
  show ?case by (auto simp: in_star_greedy)
next
  case (StarLazy P)
  show ?case by (auto simp: in_star_lazy)
next
  case (Seq a b)
  from Seq.prems have pa: "plain a" and pb: "plain b" by simp_all
  show ?case
  proof
    assume "(n', s', g') \<in> set (rx_match (Seq a b) (n, s, g))"
    then obtain n1 s1 g1 where
      m1: "(n1, s1, g1) \<in> set (rx_match a (n, s, g))" and
      m2: "(n', s', g') \<in> set (rx_match b (n1, s1, g1))"
      by auto
    from m1 Seq.IH(1)[OF pa] obtain x where
      x: "s = x @ s1" "n1 = n + length x" "g1 = g" "sem a x s1"
      by blast
    from m2 Seq.IH(2)[OF pb] obtain y where
      y: "s1 = y @ s'" "n' = n1 + length y" "g' = g1" "sem b y s'"
      by blast
    from x y show "\<exists>m. s = m @ s' \<and> n' = n + length m \<and> g' = g \<and> sem (Seq a b) m s'"
      by (rule_tac x = "x @ y" in exI) auto
  next
    assume "\<exists>m. s = m @ s' \<and> n' = n + length m \<and> g' = g \<and> sem (Seq a b) m s'"
    then obtain x y where
      xy: "s = (x @ y) @ s'" "n' = n + length (x @ y)" "g' = g" "sem a x (y @ s')" "sem b y s'"
      by auto
    from xy have "(n + length x, y @ s', g) \<in> set (rx_match a (n, s, g))"
      using Seq.IH(1)[OF pa, of "n + length x" "y @ s'" g n s g] by simp
    moreover from xy have "(n', s', g') \<in> set (rx_match b (n + length x, y @ s', g))"
      using Seq.IH(2)[OF pb, of n' s' g' "n + length x" "y @ s'" g] by simp
    ultimately show "(n', s', g') \<in> set (rx_match (Seq a b) (n, s, g))"
      by auto
  qed
next
  case (Alt a b)
  then show ?case by auto
next
  case Bol
  then show ?case by simp
next
  case Eol
  show ?case by auto
next
  case (Grp r)
  then show ?case by simp
qed

section \<open>The invocation pattern, spelled out\<close>

text \<open>
  The text of one invocation as the pattern matches it: \<open>execution\<close>, white space,
  \<open>=\<close>, white space, \<open>tool.execute(\<close>, arguments without a line break, \<open>)\<close>, white
  space, and then either a line break, or nothing where the text ends or only a line break
  is left.
\<close>

definition inv_text :: "string \<Rightarrow> string \<Rightarrow> bool" where
  "inv_text m rest =
     (\<exists>w1 w2 a w3 e.
        m = ''execution'' @ w1 @ ''='' @ w2 @ ''tool.execute('' @ a @ '')'' @ w3 @ e \<and>
        list_all is_space w1 \<and> list_all is_space w2 \<and> newline \<notin> set a \<and>
        list_all is_space w3 \<and> (e = [newline] \<or> e = [] \<and> (rest = [] \<or> rest = [newline])))"

definition head_text :: "string \<Rightarrow> bool" where
  "head_text h =
     (\<exists>w1 w2. h = ''execution'' @ w1 @ ''='' @ w2 @ ''tool.execute('' \<and>
        list_all is_space w1 \<and> list_all is_space w2)"

definition close_text :: "string \<Rightarrow> string \<Rightarrow> bool" where
  "close_text m rest =
     (\<exists>a w3 e. m = a @ '')'' @ w3 @ e \<and> newline \<notin> set a \<and> list_all is_space w3 \<and>
        (e = [newline] \<or> e = [] \<and> (rest = [] \<or> rest = [newline])))"

lemma plain_invocation [simp]:
  "plain invocation_head" "plain invocation_close" "plain invocation"
  by (simp_all add: invocation_head_def invocation_close_def invocation_def)

lemma sem_invocation_head: "sem invocation_head h rest = head_text h"
  unfolding invocation_head_def head_text_def list_all_iff sem.simps
  by (simp, blast)

lemma sem_invocation_close: "sem invocation_close m rest = close_text m rest"
  unfolding invocation_close_def close_text_def list_all_iff not_newline_def sem.simps
  by (simp, blast)

lemma sem_invocation:
  "sem invocation m rest = (\<exists>h c. m = h @ c \<and> head_text h \<and> close_text c rest)"
  by (simp add: invocation_def sem_invocation_head sem_invocation_close)

lemma inv_text_iff:
  "inv_text m rest = (\<exists>h c. m = h @ c \<and> head_text h \<and> close_text c rest)"
proof
  assume "inv_text m rest"
  then obtain w1 w2 a w3 e where
    m: "m = ''execution'' @ w1 @ ''='' @ w2 @ ''tool.execute('' @ a @ '')'' @ w3 @ e" and
    w: "list_all is_space w1" "list_all is_space w2" "newline \<notin> set a" "list_all is_space w3"
      "e = [newline] \<or> e = [] \<and> (rest = [] \<or> rest = [newline])"
    unfolding inv_text_def by blast
  have "head_text (''execution'' @ w1 @ ''='' @ w2 @ ''tool.execute('')"
    using w unfolding head_text_def by blast
  moreover have "close_text (a @ '')'' @ w3 @ e) rest"
    using w unfolding close_text_def by blast
  moreover have "m = (''execution'' @ w1 @ ''='' @ w2 @ ''tool.execute('') @ (a @ '')'' @ w3 @ e)"
    using m by simp
  ultimately show "\<exists>h c. m = h @ c \<and> head_text h \<and> close_text c rest"
    by blast
next
  assume "\<exists>h c. m = h @ c \<and> head_text h \<and> close_text c rest"
  then obtain h c where hc: "m = h @ c" "head_text h" "close_text c rest"
    by blast
  from hc(2) obtain w1 w2 where
    h: "h = ''execution'' @ w1 @ ''='' @ w2 @ ''tool.execute(''"
      "list_all is_space w1" "list_all is_space w2"
    unfolding head_text_def by blast
  from hc(3) obtain a w3 e where
    c: "c = a @ '')'' @ w3 @ e" "newline \<notin> set a" "list_all is_space w3"
      "e = [newline] \<or> e = [] \<and> (rest = [] \<or> rest = [newline])"
    unfolding close_text_def by blast
  have "m = ''execution'' @ w1 @ ''='' @ w2 @ ''tool.execute('' @ a @ '')'' @ w3 @ e"
    using hc(1) h(1) c(1) by simp
  with h c show "inv_text m rest"
    unfolding inv_text_def by blast
qed

lemma sem_invocation_text: "sem invocation m rest = inv_text m rest"
  by (simp add: sem_invocation inv_text_iff)

text \<open>\<open>inv_at t\<close>: the invocation pattern matches at the start of \<open>t\<close>.\<close>

definition inv_at :: "string \<Rightarrow> bool" where
  "inv_at t = (\<exists>m rest. t = m @ rest \<and> inv_text m rest)"

lemma in_rx_match_invocation:
  "(n', s', g') \<in> set (rx_match invocation (n, s, g)) \<longleftrightarrow>
     (\<exists>m. s = m @ s' \<and> n' = n + length m \<and> g' = g \<and> inv_text m s')"
  by (simp add: rx_match_sem sem_invocation_text)

lemma rx_match_invocation_Nil: "rx_match invocation (n, s, g) = [] \<longleftrightarrow> \<not> inv_at s"
proof
  assume e: "rx_match invocation (n, s, g) = []"
  show "\<not> inv_at s"
  proof
    assume "inv_at s"
    then obtain m rest where "s = m @ rest" "inv_text m rest"
      unfolding inv_at_def by blast
    then have "(n + length m, rest, g) \<in> set (rx_match invocation (n, s, g))"
      by (simp add: in_rx_match_invocation)
    with e show False by simp
  qed
next
  assume n: "\<not> inv_at s"
  show "rx_match invocation (n, s, g) = []"
  proof (cases "rx_match invocation (n, s, g)")
    case Nil
    then show ?thesis .
  next
    case (Cons st sts)
    obtain n' s' g' where "st = (n', s', g')" by (cases st)
    with Cons have "(n', s', g') \<in> set (rx_match invocation (n, s, g))" by simp
    then have "inv_at s"
      unfolding inv_at_def by (auto simp: in_rx_match_invocation)
    with n show ?thesis by simp
  qed
qed

lemma inv_text_nonempty: "inv_text m rest \<Longrightarrow> m \<noteq> []"
  by (auto simp: inv_text_def)

lemma not_inv_at_Nil [simp]: "\<not> inv_at []"
  by (auto simp: inv_at_def dest: inv_text_nonempty)

section \<open>The split pattern, position by position\<close>

lemma split_pattern_Nil: "rx_match split_pattern (n, [], g) = []"
  using rx_match_invocation_Nil[of n "[]" g] by (simp add: split_pattern_def)

lemma split_pattern_Cons:
  "rx_match split_pattern (n, c # cs, g) =
     rx_match invocation (n, c # cs, g) @ rx_match split_pattern (Suc n, cs, g)"
  by (simp add: split_pattern_def any_char_def)

text \<open>
  The first way the split pattern matches: the lazy prefix is as short as it can be, then
  an invocation follows.
\<close>

lemma split_pattern_first:
  "rx_match split_pattern (n, s, g) = (n', s', g') # sts \<Longrightarrow>
   \<exists>pre m. s = pre @ m @ s' \<and> n' = n + length pre + length m \<and> inv_text m s' \<and>
     (\<forall>i<length pre. \<not> inv_at (drop i s))"
proof (induction s arbitrary: n)
  case Nil
  then show ?case by (simp add: split_pattern_Nil)
next
  case (Cons c cs)
  show ?case
  proof (cases "rx_match invocation (n, c # cs, g)")
    case Nil
    with Cons.prems have "rx_match split_pattern (Suc n, cs, g) = (n', s', g') # sts"
      by (simp add: split_pattern_Cons)
    from Cons.IH[OF this] obtain pre m where
      ih: "cs = pre @ m @ s'" "n' = Suc n + length pre + length m" "inv_text m s'"
        "\<forall>i<length pre. \<not> inv_at (drop i cs)"
      by blast
    have "\<forall>i<length (c # pre). \<not> inv_at (drop i (c # cs))"
    proof (intro allI impI)
      fix i assume i: "i < length (c # pre)"
      show "\<not> inv_at (drop i (c # cs))"
      proof (cases i)
        case 0
        with Nil rx_match_invocation_Nil[of n "c # cs" g] show ?thesis by simp
      next
        case (Suc j)
        with i ih(4) show ?thesis by simp
      qed
    qed
    with ih show ?thesis
      by (rule_tac x = "c # pre" in exI, rule_tac x = m in exI) simp
  next
    case (Cons st rest)
    with Cons.prems have "st = (n', s', g')"
      by (simp add: split_pattern_Cons)
    with Cons have "(n', s', g') \<in> set (rx_match invocation (n, c # cs, g))" by simp
    then obtain m where "c # cs = m @ s'" "n' = n + length m" "inv_text m s'"
      by (auto simp: in_rx_match_invocation)
    then show ?thesis
      by (rule_tac x = "[]" in exI, rule_tac x = m in exI) simp
  qed
qed

lemma split_pattern_none:
  "rx_match split_pattern (n, s, g) = [] \<longleftrightarrow> (\<forall>i\<le>length s. \<not> inv_at (drop i s))"
proof (induction s arbitrary: n)
  case Nil
  then show ?case by (simp add: split_pattern_Nil)
next
  case (Cons c cs)
  have "(\<forall>i\<le>length (c # cs). \<not> inv_at (drop i (c # cs))) \<longleftrightarrow>
      \<not> inv_at (c # cs) \<and> (\<forall>i\<le>length cs. \<not> inv_at (drop i cs))"
  proof
    assume a: "\<forall>i\<le>length (c # cs). \<not> inv_at (drop i (c # cs))"
    have "\<not> inv_at (c # cs)" using a[rule_format, of 0] by simp
    moreover have "\<forall>i\<le>length cs. \<not> inv_at (drop i cs)"
      using a[rule_format, of "Suc i" for i] by simp
    ultimately show "\<not> inv_at (c # cs) \<and> (\<forall>i\<le>length cs. \<not> inv_at (drop i cs))" by simp
  next
    assume a: "\<not> inv_at (c # cs) \<and> (\<forall>i\<le>length cs. \<not> inv_at (drop i cs))"
    show "\<forall>i\<le>length (c # cs). \<not> inv_at (drop i (c # cs))"
    proof (intro allI impI)
      fix i assume "i \<le> length (c # cs)"
      with a show "\<not> inv_at (drop i (c # cs))" by (cases i) auto
    qed
  qed
  with Cons.IH[of "Suc n"] rx_match_invocation_Nil[of n "c # cs" g] show ?case
    by (simp add: split_pattern_Cons)
qed

lemma rx_scan_split_none:
  "rx_match split_pattern (n, s, None) = [] \<Longrightarrow> rx_scan split_pattern adv n s = None"
proof (induction s arbitrary: n adv)
  case Nil
  then show ?case by (subst rx_scan.simps) simp
next
  case (Cons c cs)
  from Cons.prems have "rx_match split_pattern (Suc n, cs, None) = []"
    by (simp add: split_pattern_Cons)
  from Cons.IH[OF this] Cons.prems show ?case
    by (subst rx_scan.simps) simp
qed

section \<open>The matches of the splitter\<close>

text \<open>
  \<open>first_block s b r\<close>: \<open>b\<close> is a first match of the split pattern in \<open>s\<close> and
  \<open>r\<close> is what follows it. The match is the text up to the first place where an
  invocation matches, and that invocation.
\<close>

definition first_block :: "string \<Rightarrow> string \<Rightarrow> string \<Rightarrow> bool" where
  "first_block s b r =
     (\<exists>pre m. b = pre @ m \<and> s = b @ r \<and> inv_text m r \<and> (\<forall>i<length pre. \<not> inv_at (drop i s)))"

inductive blocks_of :: "string \<Rightarrow> string list \<Rightarrow> bool" where
  no_block: "\<forall>i\<le>length s. \<not> inv_at (drop i s) \<Longrightarrow> blocks_of s []"
| next_block: "first_block s b r \<Longrightarrow> blocks_of r bs \<Longrightarrow> blocks_of s (b # bs)"

lemma rx_scan_split_some:
  assumes "rx_match split_pattern (n, s, None) = (n', s', g') # sts"
  shows "rx_scan split_pattern False n s =
    Some \<lparr>m_start = n, m_end = n', m_text = take (n' - n) s, m_group = g'\<rparr>"
proof -
  have "filter (\<lambda>(k, t, h). \<not> False \<or> k \<noteq> n) (rx_match split_pattern (n, s, None)) =
      rx_match split_pattern (n, s, None)"
    by (simp add: split_def)
  with assms show ?thesis
    by (subst rx_scan.simps) simp
qed

lemma first_block_nonempty: "first_block s b r \<Longrightarrow> b \<noteq> []"
  by (auto simp: first_block_def dest: inv_text_nonempty)

lemma rx_finditer_split_blocks:
  "\<not> adv \<Longrightarrow> blocks_of s (map m_text (rx_finditer split_pattern adv n s))"
proof (induction "length s" arbitrary: s n adv rule: less_induct)
  case less
  from less.prems have adv: "adv = False" by simp
  show ?case
  proof (cases "rx_match split_pattern (n, s, None)")
    case Nil
    then have "rx_scan split_pattern False n s = None"
      by (rule rx_scan_split_none)
    then have "rx_finditer split_pattern False n s = []"
      by (subst rx_finditer.simps) simp
    moreover from Nil have "\<forall>i\<le>length s. \<not> inv_at (drop i s)"
      by (simp add: split_pattern_none)
    ultimately show ?thesis
      using adv by (simp add: blocks_of.no_block)
  next
    case (Cons st sts)
    obtain n' s' g' where st: "st = (n', s', g')" by (cases st)
    from Cons st have m: "rx_match split_pattern (n, s, None) = (n', s', g') # sts"
      by simp
    from split_pattern_first[OF m] obtain pre mt where
      f: "s = pre @ mt @ s'" "n' = n + length pre + length mt" "inv_text mt s'"
        "\<forall>i<length pre. \<not> inv_at (drop i s)"
      by blast
    have ne: "mt \<noteq> []" using f(3) by (rule inv_text_nonempty)
    have fb: "first_block s (pre @ mt) s'"
      unfolding first_block_def using f
      by (rule_tac x = pre in exI, rule_tac x = mt in exI) simp
    have tk: "take (n' - n) s = pre @ mt" using f(1,2) by simp
    have dr: "drop (n' - n) s = s'" using f(1,2) by simp
    have "length s' < length s" using f(1) ne by simp
    from less.hyps[OF this, of False n'] have
      ih: "blocks_of s' (map m_text (rx_finditer split_pattern False n' s'))"
      by simp
    have "n' \<noteq> n" using f(2) ne by simp
    then have "rx_finditer split_pattern False n s =
        \<lparr>m_start = n, m_end = n', m_text = pre @ mt, m_group = g'\<rparr> #
          rx_finditer split_pattern False n' s'"
      using rx_scan_split_some[OF m] tk dr
      by (subst rx_finditer.simps) simp
    with fb ih adv show ?thesis
      by (simp add: blocks_of.next_block)
  qed
qed

lemma rx_findall_split_blocks: "blocks_of s (rx_findall split_pattern s)"
  by (simp add: rx_findall_def rx_finditer_split_blocks)

text \<open>A match holds \<open>execution\<close>, so trimming it leaves something.\<close>

lemma not_space_e [simp]: "\<not> is_space CHR ''e''"
  by (simp add: is_space_def)

lemma strip_nonempty: "\<exists>c\<in>set s. \<not> is_space c \<Longrightarrow> strip s \<noteq> []"
proof -
  assume a: "\<exists>c\<in>set s. \<not> is_space c"
  then have 1: "lstrip s \<noteq> []"
    by (auto simp: lstrip_def dropWhile_eq_Nil_conv)
  have "hd (lstrip s) \<in> set (lstrip s)" using 1 by simp
  moreover have "\<not> is_space (hd (lstrip s))"
    using 1 hd_dropWhile[of is_space s] by (simp add: lstrip_def)
  ultimately have "\<exists>c\<in>set (lstrip s). \<not> is_space c" by blast
  then have "\<exists>c\<in>set (rev (lstrip s)). \<not> is_space c" by simp
  then have "dropWhile is_space (rev (lstrip s)) \<noteq> []"
    by (auto simp: dropWhile_eq_Nil_conv)
  then show ?thesis by (simp add: strip_def rstrip_def)
qed

lemma first_block_strip: "first_block s b r \<Longrightarrow> strip b \<noteq> []"
proof -
  assume "first_block s b r"
  then obtain pre m where "b = pre @ m" "inv_text m r"
    unfolding first_block_def by blast
  then have "CHR ''e'' \<in> set b"
    by (auto simp: inv_text_def)
  then show ?thesis by (intro strip_nonempty) (use not_space_e in blast)
qed

lemma blocks_of_strip: "blocks_of s bs \<Longrightarrow> filter (\<lambda>b. strip b \<noteq> []) bs = bs"
  by (induction rule: blocks_of.induct) (auto dest: first_block_strip)

lemma split_commands_blocks:
  "\<exists>bs. blocks_of s bs \<and> split_commands s = map strip bs"
  using rx_findall_split_blocks[of s] blocks_of_strip
  by (auto simp: split_commands_def)

lemma blocks_of_concat:
  "blocks_of s bs \<Longrightarrow> \<exists>rest. s = concat bs @ rest \<and> (\<forall>i\<le>length rest. \<not> inv_at (drop i rest))"
proof (induction rule: blocks_of.induct)
  case (no_block s)
  then show ?case by simp
next
  case (next_block s b r bs)
  then obtain rest where "r = concat bs @ rest" "\<forall>i\<le>length rest. \<not> inv_at (drop i rest)"
    by blast
  moreover from next_block(1) have "s = b @ r" by (auto simp: first_block_def)
  ultimately show ?case by auto
qed

lemma blocks_of_Nil_iff: "blocks_of s [] \<longleftrightarrow> (\<forall>i\<le>length s. \<not> inv_at (drop i s))"
  by (auto intro: blocks_of.no_block elim: blocks_of.cases)

lemma split_commands_Nil_iff:
  "split_commands s = [] \<longleftrightarrow> (\<forall>i\<le>length s. \<not> inv_at (drop i s))"
proof -
  obtain bs where bs: "blocks_of s bs" "split_commands s = map strip bs"
    using split_commands_blocks by blast
  show ?thesis
  proof
    assume "split_commands s = []"
    with bs have "blocks_of s []" by simp
    then show "\<forall>i\<le>length s. \<not> inv_at (drop i s)" by (simp add: blocks_of_Nil_iff)
  next
    assume a: "\<forall>i\<le>length s. \<not> inv_at (drop i s)"
    show "split_commands s = []"
    proof (cases bs)
      case Nil
      with bs show ?thesis by simp
    next
      case (Cons b bs')
      with bs(1) obtain r where "first_block s b r"
        by (auto elim: blocks_of.cases)
      then obtain pre m where pm: "b = pre @ m" "s = b @ r" "inv_text m r"
        unfolding first_block_def by blast
      then have "inv_at (drop (length pre) s)"
        unfolding inv_at_def by auto
      moreover have "length pre \<le> length s" using pm by simp
      ultimately show ?thesis using a by blast
    qed
  qed
qed

lemma blocks_of_member:
  "blocks_of s bs \<Longrightarrow> b \<in> set bs \<Longrightarrow> \<exists>s' r. first_block s' b r"
  by (induction rule: blocks_of.induct) auto

lemma first_block_shape:
  assumes "first_block s b r"
  shows "\<exists>pre w1 w2 a w3.
    b = pre @ ''execution'' @ w1 @ ''='' @ w2 @ ''tool.execute('' @ a @ '')'' @ w3 \<and>
    list_all is_space w1 \<and> list_all is_space w2 \<and> newline \<notin> set a \<and> list_all is_space w3"
proof -
  from assms obtain pre m where pm: "b = pre @ m" "inv_text m r"
    unfolding first_block_def by blast
  from pm(2) obtain w1 w2 a w3 e where
    m: "m = ''execution'' @ w1 @ ''='' @ w2 @ ''tool.execute('' @ a @ '')'' @ w3 @ e" and
    w: "list_all is_space w1" "list_all is_space w2" "newline \<notin> set a" "list_all is_space w3"
      "e = [newline] \<or> e = [] \<and> (r = [] \<or> r = [newline])"
    unfolding inv_text_def by blast
  from w(4,5) have "list_all is_space (w3 @ e)" by auto
  moreover from pm(1) m have
    "b = pre @ ''execution'' @ w1 @ ''='' @ w2 @ ''tool.execute('' @ a @ '')'' @ (w3 @ e)"
    by simp
  ultimately show ?thesis using w(1,2,3) by blast
qed

lemma blocks_of_empty_text:
  assumes "blocks_of [] bs"
  shows "bs = []"
proof (cases bs)
  case Nil
  then show ?thesis .
next
  case (Cons b bs')
  with assms obtain r where f: "first_block [] b r"
    by (auto elim: blocks_of.cases)
  then have "[] = b @ r" by (auto simp: first_block_def)
  with first_block_nonempty[OF f] show ?thesis by simp
qed

lemma execute_tool_command_runs:
  "resolve_tool self rt tool_name st = (Inr tool, s1) \<Longrightarrow>
   execute_tool_command self rt tool_name cmd st =
     (case run_blocks self (exec rt) tool (split_commands cmd) [] s1 of
        (Inr rs, s2) \<Rightarrow> (Executions rs, s2)
      | (Inl e, s2) \<Rightarrow>
          if is_exit e then (Propagated e, s2)
          else (ErrorText (''Error in execute_tool_command: '' @ exc_str e), s2))"
  by (simp add: execute_tool_command_def split: prod.splits sum.splits)

section \<open>What the splitter leaves out\<close>

text \<open>
  Claim C10. The matches of the splitter lie end to end from the start of the command;
  each ends with the arguments of an invocation, the closing parenthesis and white
  space. What follows the last match holds no further match, is in no block, and no
  block but those of the matches is run.
\<close>

theorem trailing_text_dropped:
  "\<exists>ms rest.
     cmd = concat ms @ rest \<and> split_commands cmd = map strip ms \<and> split_commands rest = [] \<and>
     (\<forall>m\<in>set ms. \<exists>pre a w. m = pre @ ''tool.execute('' @ a @ '')'' @ w \<and>
        newline \<notin> set a \<and> list_all is_space w) \<and>
     (\<forall>tool s1. resolve_tool self rt tool_name st = (Inr tool, s1) \<longrightarrow>
        execute_tool_command self rt tool_name cmd st =
          (case run_blocks self (exec rt) tool (map strip ms) [] s1 of
             (Inr rs, s2) \<Rightarrow> (Executions rs, s2)
           | (Inl e, s2) \<Rightarrow>
               if is_exit e then (Propagated e, s2)
               else (ErrorText (''Error in execute_tool_command: '' @ exc_str e), s2)))"
proof -
  obtain ms where ms: "blocks_of cmd ms" "split_commands cmd = map strip ms"
    using split_commands_blocks by blast
  from blocks_of_concat[OF ms(1)] obtain rest where
    rest: "cmd = concat ms @ rest" "\<forall>i\<le>length rest. \<not> inv_at (drop i rest)"
    by blast
  have r: "split_commands rest = []"
    using rest(2) by (simp add: split_commands_Nil_iff)
  have shape: "\<forall>m\<in>set ms. \<exists>pre a w. m = pre @ ''tool.execute('' @ a @ '')'' @ w \<and>
        newline \<notin> set a \<and> list_all is_space w"
  proof
    fix m assume "m \<in> set ms"
    from blocks_of_member[OF ms(1) this] obtain s' r' where "first_block s' m r'"
      by blast
    from first_block_shape[OF this] obtain pre w1 w2 a w3 where
      m: "m = pre @ ''execution'' @ w1 @ ''='' @ w2 @ ''tool.execute('' @ a @ '')'' @ w3"
        "newline \<notin> set a" "list_all is_space w3"
      by blast
    from m(1) have "m = (pre @ ''execution'' @ w1 @ ''='' @ w2) @ ''tool.execute('' @ a @ '')'' @ w3"
      by simp
    with m(2,3) show "\<exists>pre a w. m = pre @ ''tool.execute('' @ a @ '')'' @ w \<and>
        newline \<notin> set a \<and> list_all is_space w"
      by blast
  qed
  have run: "\<forall>tool s1. resolve_tool self rt tool_name st = (Inr tool, s1) \<longrightarrow>
        execute_tool_command self rt tool_name cmd st =
          (case run_blocks self (exec rt) tool (map strip ms) [] s1 of
             (Inr rs, s2) \<Rightarrow> (Executions rs, s2)
           | (Inl e, s2) \<Rightarrow>
               if is_exit e then (Propagated e, s2)
               else (ErrorText (''Error in execute_tool_command: '' @ exc_str e), s2))"
    using execute_tool_command_runs[of self rt tool_name st _ _ cmd] ms(2) by simp
  from rest(1) ms(2) r shape run show ?thesis by blast
qed

definition with_trailer :: string where
  "with_trailer = ''execution = tool.execute(q=1)'' @ [newline] @ ''print(execution)''"

theorem trailing_text_dropped_witness:
  "split_commands with_trailer = [''execution = tool.execute(q=1)''] \<and>
   (\<exists>ms rest. with_trailer = concat ms @ rest \<and> split_commands with_trailer = map strip ms \<and>
      split_commands rest = [])"
proof -
  have "split_commands with_trailer = [''execution = tool.execute(q=1)'']"
    by code_simp
  moreover have "\<exists>ms rest. with_trailer = concat ms @ rest \<and>
      split_commands with_trailer = map strip ms \<and> split_commands rest = []"
    using trailing_text_dropped[of with_trailer self_sample rt_sample "''Echo_Tool''" st_sample]
    by blast
  ultimately show ?thesis by simp
qed

section \<open>A block and the text before its invocation\<close>

lemma inv_text_ends:
  assumes "inv_text m r"
  shows "(m \<noteq> [] \<and> last m = newline \<and> (\<forall>r'. inv_text m r')) \<or> r = [] \<or> r = [newline]"
proof -
  from assms obtain w1 w2 a w3 e where
    m: "m = ''execution'' @ w1 @ ''='' @ w2 @ ''tool.execute('' @ a @ '')'' @ w3 @ e" and
    w: "list_all is_space w1" "list_all is_space w2" "newline \<notin> set a" "list_all is_space w3" and
    e: "e = [newline] \<or> e = [] \<and> (r = [] \<or> r = [newline])"
    unfolding inv_text_def by blast
  show ?thesis
  proof (cases "e = [newline]")
    case True
    define x where "x = ''execution'' @ w1 @ ''='' @ w2 @ ''tool.execute('' @ a @ '')'' @ w3"
    from m True have mx: "m = x @ [newline]" by (simp add: x_def)
    have "\<forall>r'. inv_text m r'"
      unfolding inv_text_def using m w True by blast
    with mx show ?thesis by simp
  next
    case False
    with e show ?thesis by simp
  qed
qed


lemma prep_then_line:
  assumes nl: "newline \<notin> set line"
    and line: "split_commands line \<noteq> []"
    and prep: "split_commands prep = []"
  shows "split_commands (prep @ line) = [strip (prep @ line)]"
proof -
  let ?t = "prep @ line"
  from line obtain i where i: "i \<le> length line" "inv_at (drop i line)"
    by (auto simp: split_commands_Nil_iff)
  have "drop (length prep + i) ?t = drop i line" by simp
  moreover have "length prep + i \<le> length ?t" using i(1) by simp
  ultimately have ex: "\<not> (\<forall>j\<le>length ?t. \<not> inv_at (drop j ?t))"
    using i(2) by metis
  obtain bs where bs: "blocks_of ?t bs" "split_commands ?t = map strip bs"
    using split_commands_blocks by blast
  from bs(1) ex obtain b r bs' where
    b: "bs = b # bs'" "first_block ?t b r" "blocks_of r bs'"
    by (auto elim: blocks_of.cases)
  from b(2) obtain pre m where
    pm: "b = pre @ m" "?t = b @ r" "inv_text m r"
    unfolding first_block_def by blast
  have "r = []"
  proof (rule ccontr)
    assume rne: "r \<noteq> []"
    from pm(2) obtain us where
      us: "prep = b @ us \<and> us @ line = r \<or> prep @ us = b \<and> line = us @ r"
      by (auto simp: append_eq_append_conv2)
    from inv_text_ends[OF pm(3)] rne consider
      (nl) "m \<noteq> []" "last m = newline" "\<forall>r'. inv_text m r'" | (eol) "r = [newline]"
      by blast
    then show False
    proof cases
      case nl
      from us show False
      proof
        assume a: "prep = b @ us \<and> us @ line = r"
        from nl(3) have "inv_text m us" by simp
        with a pm(1) have "inv_at (drop (length pre) prep)"
          unfolding inv_at_def by auto
        moreover have "length pre \<le> length prep" using a pm(1) by simp
        ultimately show False using prep by (auto simp: split_commands_Nil_iff)
      next
        assume a: "prep @ us = b \<and> line = us @ r"
        show False
        proof (cases us)
          case Nil
          with a have pb: "prep = b" by simp
          from nl(3) have "inv_text m []" by simp
          with pb pm(1) have "inv_at (drop (length pre) prep)"
            unfolding inv_at_def by auto
          moreover have "length pre \<le> length prep" using pb pm(1) by simp
          ultimately show False using prep by (auto simp: split_commands_Nil_iff)
        next
          case (Cons u us')
          from nl(1,2) pm(1) have "last b = newline" by simp
          with a Cons have "last us = newline" by (metis last_appendR list.distinct(1))
          with Cons have "newline \<in> set us" by (metis last_in_set list.distinct(1))
          with a nl show False using \<open>newline \<notin> set line\<close> by auto
        qed
      qed
    next
      case eol
      from us have "newline \<in> set line \<or> line = []"
      proof
        assume a: "prep = b @ us \<and> us @ line = r"
        with eol show ?thesis by (cases us) auto
      next
        assume a: "prep @ us = b \<and> line = us @ r"
        with eol show ?thesis by auto
      qed
      with nl i show False by auto
    qed
  qed
  with pm(2) b(3) have "b = ?t" "bs' = []"
    by (auto dest: blocks_of_empty_text)
  with b(1) bs(2) show ?thesis by simp
qed

lemma blocks_of_nth:
  "blocks_of s bs \<Longrightarrow>
   \<exists>rest. s = concat bs @ rest \<and> (\<forall>i\<le>length rest. \<not> inv_at (drop i rest)) \<and>
     (\<forall>k<length bs.
        first_block (concat (drop k bs) @ rest) (bs ! k) (concat (drop (Suc k) bs) @ rest))"
proof (induction rule: blocks_of.induct)
  case (no_block s)
  then show ?case by simp
next
  case (next_block s b r bs)
  from next_block.IH obtain rest where
    r: "r = concat bs @ rest" and none: "\<forall>i\<le>length rest. \<not> inv_at (drop i rest)" and
    nth: "\<forall>k<length bs.
        first_block (concat (drop k bs) @ rest) (bs ! k) (concat (drop (Suc k) bs) @ rest)"
    by blast
  from next_block(1) have s: "s = b @ r" by (auto simp: first_block_def)
  have "\<forall>k<length (b # bs).
      first_block (concat (drop k (b # bs)) @ rest) ((b # bs) ! k)
        (concat (drop (Suc k) (b # bs)) @ rest)"
  proof (intro allI impI)
    fix k assume k: "k < length (b # bs)"
    show "first_block (concat (drop k (b # bs)) @ rest) ((b # bs) ! k)
        (concat (drop (Suc k) (b # bs)) @ rest)"
    proof (cases k)
      case 0
      with next_block(1) s r show ?thesis by simp
    next
      case (Suc k')
      with k nth show ?thesis by simp
    qed
  qed
  with s r none show ?case
    by (rule_tac x = rest in exI) simp
qed

lemma first_block_rx:
  assumes "first_block s b r"
  shows "\<exists>pre m. b = pre @ m \<and>
      (length m, r, None) \<in> set (rx_match invocation (0, m @ r, None)) \<and>
      (\<forall>i<length pre. rx_match invocation (0, drop i s, None) = [])"
proof -
  from assms obtain pre m where
    pm: "b = pre @ m" "inv_text m r" "\<forall>i<length pre. \<not> inv_at (drop i s)"
    unfolding first_block_def by blast
  have "(length m, r, None) \<in> set (rx_match invocation (0, m @ r, None))"
    using pm(2) by (simp add: in_rx_match_invocation)
  moreover have "\<forall>i<length pre. rx_match invocation (0, drop i s, None) = []"
    using pm(3) by (simp add: rx_match_invocation_Nil)
  ultimately show ?thesis using pm(1) by blast
qed

text \<open>
  Claim C2. The matches lie end to end from the start of the command, and what follows
  the last of them holds no match of the invocation pattern at any position. Each match
  is a text in which the invocation pattern matches nowhere, followed by a match of the
  invocation pattern: so a match begins where the match before it ended (or at the start)
  and ends with the first invocation after that point, and each block is its match,
  trimmed. A text that holds no match, followed by a line with an invocation, gives one
  block: the whole command, trimmed.
\<close>

theorem block_is_text_since_previous_match:
  "(\<exists>ms rest.
      cmd = concat ms @ rest \<and> split_commands cmd = map strip ms \<and>
      (\<forall>i\<le>length rest. rx_match invocation (0, drop i rest, None) = []) \<and>
      (\<forall>k<length ms. \<exists>pre m.
         ms ! k = pre @ m \<and>
         (length m, concat (drop (Suc k) ms) @ rest, None) \<in>
           set (rx_match invocation (0, m @ concat (drop (Suc k) ms) @ rest, None)) \<and>
         (\<forall>i<length pre.
            rx_match invocation (0, drop i (concat (drop k ms) @ rest), None) = [])) \<and>
      (\<forall>m\<in>set ms. \<exists>pre w1 w2 a w3.
         m = pre @ ''execution'' @ w1 @ ''='' @ w2 @ ''tool.execute('' @ a @ '')'' @ w3 \<and>
         list_all is_space w1 \<and> list_all is_space w2 \<and> newline \<notin> set a \<and>
         list_all is_space w3)) \<and>
   (newline \<notin> set line \<and> split_commands line \<noteq> [] \<and> split_commands prep = [] \<longrightarrow>
      split_commands (prep @ line) = [strip (prep @ line)])"
proof -
  obtain ms where ms: "blocks_of cmd ms" "split_commands cmd = map strip ms"
    using split_commands_blocks by blast
  from blocks_of_nth[OF ms(1)] obtain rest where
    rest: "cmd = concat ms @ rest" and
    none: "\<forall>i\<le>length rest. \<not> inv_at (drop i rest)" and
    nth: "\<forall>k<length ms.
        first_block (concat (drop k ms) @ rest) (ms ! k) (concat (drop (Suc k) ms) @ rest)"
    by blast
  have a: "\<forall>i\<le>length rest. rx_match invocation (0, drop i rest, None) = []"
    using none by (simp add: rx_match_invocation_Nil)
  have b: "\<forall>k<length ms. \<exists>pre m.
         ms ! k = pre @ m \<and>
         (length m, concat (drop (Suc k) ms) @ rest, None) \<in>
           set (rx_match invocation (0, m @ concat (drop (Suc k) ms) @ rest, None)) \<and>
         (\<forall>i<length pre.
            rx_match invocation (0, drop i (concat (drop k ms) @ rest), None) = [])"
  proof (intro allI impI)
    fix k assume "k < length ms"
    with nth have "first_block (concat (drop k ms) @ rest) (ms ! k)
        (concat (drop (Suc k) ms) @ rest)"
      by blast
    from first_block_rx[OF this]
    show "\<exists>pre m.
         ms ! k = pre @ m \<and>
         (length m, concat (drop (Suc k) ms) @ rest, None) \<in>
           set (rx_match invocation (0, m @ concat (drop (Suc k) ms) @ rest, None)) \<and>
         (\<forall>i<length pre.
            rx_match invocation (0, drop i (concat (drop k ms) @ rest), None) = [])" .
  qed
  have c: "\<forall>m\<in>set ms. \<exists>pre w1 w2 a w3.
         m = pre @ ''execution'' @ w1 @ ''='' @ w2 @ ''tool.execute('' @ a @ '')'' @ w3 \<and>
         list_all is_space w1 \<and> list_all is_space w2 \<and> newline \<notin> set a \<and>
         list_all is_space w3"
    using blocks_of_member[OF ms(1)] first_block_shape by blast
  have d: "newline \<notin> set line \<and> split_commands line \<noteq> [] \<and> split_commands prep = [] \<longrightarrow>
      split_commands (prep @ line) = [strip (prep @ line)]"
    using prep_then_line[of line prep] by blast
  from rest ms(2) a b c have e: "\<exists>ms rest.
      cmd = concat ms @ rest \<and> split_commands cmd = map strip ms \<and>
      (\<forall>i\<le>length rest. rx_match invocation (0, drop i rest, None) = []) \<and>
      (\<forall>k<length ms. \<exists>pre m.
         ms ! k = pre @ m \<and>
         (length m, concat (drop (Suc k) ms) @ rest, None) \<in>
           set (rx_match invocation (0, m @ concat (drop (Suc k) ms) @ rest, None)) \<and>
         (\<forall>i<length pre.
            rx_match invocation (0, drop i (concat (drop k ms) @ rest), None) = [])) \<and>
      (\<forall>m\<in>set ms. \<exists>pre w1 w2 a w3.
         m = pre @ ''execution'' @ w1 @ ''='' @ w2 @ ''tool.execute('' @ a @ '')'' @ w3 \<and>
         list_all is_space w1 \<and> list_all is_space w2 \<and> newline \<notin> set a \<and>
         list_all is_space w3)"
    by (rule_tac x = ms in exI, rule_tac x = rest in exI) (intro conjI)
  from e d show ?thesis by (rule conjI)
qed

definition prepared :: string where
  "prepared = ''image = 1'' @ [newline] @ ''labels = 2'' @ [newline]"

definition one_invocation :: string where
  "one_invocation = ''execution = tool.execute(image=image, labels=labels)''"

definition three_invocations :: string where
  "three_invocations =
     ''execution = tool.execute(q=1)'' @ [newline] @
     ''x = 2'' @ [newline] @ ''execution = tool.execute(q=x)'' @ [newline] @
     ''execution = tool.execute(q=3)''"

theorem block_is_text_since_previous_match_witness:
  "split_commands (prepared @ one_invocation) =
     [''image = 1'' @ [newline] @ ''labels = 2'' @ [newline] @
      ''execution = tool.execute(image=image, labels=labels)''] \<and>
   split_commands three_invocations =
     [''execution = tool.execute(q=1)'',
      ''x = 2'' @ [newline] @ ''execution = tool.execute(q=x)'',
      ''execution = tool.execute(q=3)'']"
proof -
  have h: "newline \<notin> set one_invocation \<and> split_commands one_invocation \<noteq> [] \<and>
      split_commands prepared = []"
    by code_simp
  have s: "strip (prepared @ one_invocation) =
      ''image = 1'' @ [newline] @ ''labels = 2'' @ [newline] @
      ''execution = tool.execute(image=image, labels=labels)''"
    by code_simp
  have t: "split_commands three_invocations =
     [''execution = tool.execute(q=1)'',
      ''x = 2'' @ [newline] @ ''execution = tool.execute(q=x)'',
      ''execution = tool.execute(q=3)'']"
    by code_simp
  from block_is_text_since_previous_match[of "[]" one_invocation prepared] h
  have "split_commands (prepared @ one_invocation) = [strip (prepared @ one_invocation)]"
    by blast
  with s t show ?thesis by simp
qed

section \<open>The section patterns of the parser\<close>

text \<open>
  \<open>find_sub w s\<close>: the first occurrence of \<open>w\<close> in \<open>s\<close>, as the text before it and
  the text after it (what \<open>s.partition(w)\<close> gives), or \<open>None\<close> when \<open>w\<close> does not
  occur.
\<close>

fun find_sub :: "string \<Rightarrow> string \<Rightarrow> (string \<times> string) option" where
  "find_sub w [] = (if w = [] then Some ([], []) else None)"
| "find_sub w (c # cs) =
     (if prefix w (c # cs) then Some ([], drop (length w) (c # cs))
      else map_option (\<lambda>(b, a). (c # b, a)) (find_sub w cs))"

lemma find_sub_Some: "find_sub w s = Some (x, r) \<Longrightarrow> s = x @ w @ r"
proof (induction s arbitrary: x)
  case Nil
  then show ?case by (simp split: if_splits)
next
  case (Cons c cs)
  show ?case
  proof (cases "prefix w (c # cs)")
    case True
    with Cons.prems have "x = []" "r = drop (length w) (c # cs)" by simp_all
    with True show ?thesis by (auto simp: prefix_def)
  next
    case False
    with Cons.prems obtain x' where "find_sub w cs = Some (x', r)" "x = c # x'"
      by auto
    with Cons.IH show ?thesis by simp
  qed
qed

lemma find_sub_None_tl: "find_sub w (c # cs) = None \<Longrightarrow> find_sub w cs = None"
  by (simp split: if_splits)

lemma find_sub_None_drop: "find_sub w s = None \<Longrightarrow> find_sub w (drop k s) = None"
proof (induction k arbitrary: s)
  case 0
  then show ?case by simp
next
  case (Suc k)
  show ?case
  proof (cases s)
    case Nil
    with Suc.prems show ?thesis by simp
  next
    case (Cons c cs)
    with Suc.prems have "find_sub w cs = None" by (simp split: if_splits)
    with Suc.IH Cons show ?thesis by simp
  qed
qed

lemma find_sub_None_suffix: "find_sub w (x @ r) = None \<Longrightarrow> find_sub w r = None"
  using find_sub_None_drop[of w "x @ r" "length x"] by simp

text \<open>The lazy star over every character, followed by a pattern: position by position.\<close>

lemma lazy_any_Nil:
  "rx_match (Seq (StarLazy any_char) r) (n, [], g) = rx_match r (n, [], g)"
  by simp

lemma lazy_any_Cons:
  "rx_match (Seq (StarLazy any_char) r) (n, c # cs, g) =
     rx_match r (n, c # cs, g) @ rx_match (Seq (StarLazy any_char) r) (Suc n, cs, g)"
  by (simp add: any_char_def)

text \<open>The group over the lazy star, with the text captured so far.\<close>

definition lazy_group :: "string \<Rightarrow> nat \<Rightarrow> string \<Rightarrow> string option \<Rightarrow> mstate list" where
  "lazy_group pre n s g =
     map (\<lambda>(n', s', g'). (n', s', Some (pre @ take (n' - n) s))) (star_lazy any_char n s g)"

lemma lazy_group_Nil: "lazy_group pre n [] g = [(n, [], Some pre)]"
  by (simp add: lazy_group_def)

lemma lazy_group_Cons:
  "lazy_group pre n (c # cs) g = (n, c # cs, Some pre) # lazy_group (pre @ [c]) (Suc n) cs g"
proof -
  have "map (\<lambda>(n', s', g'). (n', s', Some (pre @ take (n' - n) (c # cs))))
          (star_lazy any_char (Suc n) cs g) =
        map (\<lambda>(n', s', g'). (n', s', Some ((pre @ [c]) @ take (n' - Suc n) cs)))
          (star_lazy any_char (Suc n) cs g)"
  proof (rule map_cong[OF refl])
    fix st assume st: "st \<in> set (star_lazy any_char (Suc n) cs g)"
    obtain n' s' g' where [simp]: "st = (n', s', g')" by (cases st)
    from st star_lazy_suffix[of n' s' g' any_char "Suc n" cs g] have "Suc n \<le> n'" by simp
    then have "n' - n = Suc (n' - Suc n)" by arith
    then show "(case st of (n', s', g') \<Rightarrow> (n', s', Some (pre @ take (n' - n) (c # cs)))) =
        (case st of (n', s', g') \<Rightarrow> (n', s', Some ((pre @ [c]) @ take (n' - Suc n) cs)))"
      by simp
  qed
  then show ?thesis by (simp add: lazy_group_def any_char_def)
qed

lemma rx_match_Grp_lazy:
  "rx_match (Seq (Grp (StarLazy any_char)) k) (n, s, g) =
     concat (map (rx_match k) (lazy_group [] n s g))"
  by (simp add: lazy_group_def)

lemma lazy_group_lit_none:
  "find_sub w s = None \<Longrightarrow> concat (map (rx_match (Lit w)) (lazy_group pre n s g)) = []"
proof (induction s arbitrary: pre n)
  case Nil
  then show ?case by (simp add: lazy_group_Nil split: if_splits)
next
  case (Cons c cs)
  from Cons.prems have "\<not> prefix w (c # cs)" "find_sub w cs = None"
    by (simp_all split: if_splits)
  with Cons.IH[of "pre @ [c]" "Suc n"] show ?case
    by (simp add: lazy_group_Cons)
qed

lemma lazy_group_lit_some:
  "find_sub w s = Some (y, z) \<Longrightarrow>
   \<exists>rest. concat (map (rx_match (Lit w)) (lazy_group pre n s g)) =
     (n + length y + length w, z, Some (pre @ y)) # rest"
proof (induction s arbitrary: pre n y)
  case Nil
  then show ?case by (simp add: lazy_group_Nil split: if_splits)
next
  case (Cons c cs)
  show ?case
  proof (cases "prefix w (c # cs)")
    case True
    with Cons.prems have "y = []" "z = drop (length w) (c # cs)" by simp_all
    with True show ?thesis by (simp add: lazy_group_Cons)
  next
    case False
    with Cons.prems obtain y' where y': "find_sub w cs = Some (y', z)" "y = c # y'"
      by auto
    from Cons.IH[OF y'(1), of "pre @ [c]" "Suc n"] obtain rest where
      "concat (map (rx_match (Lit w)) (lazy_group (pre @ [c]) (Suc n) cs g)) =
        (Suc n + length y' + length w, z, Some ((pre @ [c]) @ y')) # rest"
      by blast
    with False y'(2) show ?thesis by (simp add: lazy_group_Cons)
  qed
qed

text \<open>
  What a tail pattern does, as a function \<open>tf\<close> of the text it starts at: it fails, or
  its first match consumes \<open>k\<close> characters and captures \<open>grp\<close>.
\<close>

definition tail_of :: "rx \<Rightarrow> (string \<Rightarrow> (nat \<times> string) option) \<Rightarrow> bool" where
  "tail_of r tf =
     (\<forall>n s g. case tf s of
        None \<Rightarrow> rx_match r (n, s, g) = []
      | Some (k, grp) \<Rightarrow> \<exists>rest. rx_match r (n, s, g) = (n + k, drop k s, Some grp) # rest)"

definition until_tf :: "string \<Rightarrow> string \<Rightarrow> (nat \<times> string) option" where
  "until_tf w s = map_option (\<lambda>(y, z). (length y + length w, y)) (find_sub w s)"

lemma tail_of_group_lit: "tail_of (Seq (Grp (StarLazy any_char)) (Lit w)) (until_tf w)"
  unfolding tail_of_def
proof (intro allI)
  fix n s g
  show "case until_tf w s of
      None \<Rightarrow> rx_match (Seq (Grp (StarLazy any_char)) (Lit w)) (n, s, g) = []
    | Some (k, grp) \<Rightarrow> \<exists>rest. rx_match (Seq (Grp (StarLazy any_char)) (Lit w)) (n, s, g) =
        (n + k, drop k s, Some grp) # rest"
  proof (cases "find_sub w s")
    case None
    then show ?thesis
      using lazy_group_lit_none[of w s "[]" n g]
      by (simp only: rx_match_Grp_lazy until_tf_def) simp
  next
    case (Some p)
    obtain y z where p: "p = (y, z)" by (cases p)
    from Some p have f: "find_sub w s = Some (y, z)" by simp
    from find_sub_Some[OF f] have "drop (length y + length w) s = z" by simp
    with lazy_group_lit_some[OF f, of "[]" n g] f show ?thesis
      by (simp only: rx_match_Grp_lazy until_tf_def) auto
  qed
qed


text \<open>A tail that fails at a text fails at every later position of it.\<close>

definition fails_later :: "(string \<Rightarrow> (nat \<times> string) option) \<Rightarrow> bool" where
  "fails_later tf = (\<forall>s j. tf s = None \<longrightarrow> tf (drop j s) = None)"

lemma fails_later_until: "fails_later (until_tf w)"
  by (simp add: fails_later_def until_tf_def find_sub_None_drop)

lemma find_sub_first:
  "find_sub w s = Some (y, r) \<Longrightarrow> s = a @ w @ b \<Longrightarrow> length y \<le> length a"
proof (induction s arbitrary: y a)
  case Nil
  then show ?case by (simp split: if_splits)
next
  case (Cons c cs)
  show ?case
  proof (cases "prefix w (c # cs)")
    case True
    with Cons.prems(1) show ?thesis by simp
  next
    case False
    with Cons.prems(1) obtain y' where y': "find_sub w cs = Some (y', r)" "y = c # y'"
      by auto
    from False Cons.prems(2) have "a \<noteq> []" by (auto simp: prefix_def)
    then obtain a' where a': "a = c # a'" "cs = a' @ w @ b"
      using Cons.prems(2) by (cases a) auto
    from Cons.IH[OF y'(1) a'(2)] y'(2) a'(1) show ?thesis by simp
  qed
qed

lemma find_sub_later:
  assumes "find_sub w s = Some (y, r)" and "find_sub w (drop j s) = Some (y', r')"
  shows "\<exists>k. r' = drop k r"
proof -
  define a where "a = take j s @ y'"
  from find_sub_Some[OF assms(1)] have s: "s = y @ w @ r" .
  from find_sub_Some[OF assms(2)] have d: "drop j s = y' @ w @ r'" .
  have "s = take j s @ drop j s" by simp
  with d have s2: "s = a @ w @ r'" by (simp add: a_def)
  from find_sub_first[OF assms(1) s2] have le: "length y \<le> length a" .
  have "drop (length a + length w) (a @ w @ r') = r'" by simp
  with s2 have r': "r' = drop (length a + length w) s" by simp
  have "drop (length y + length w) (y @ w @ r) = r" by simp
  with s have r: "r = drop (length y + length w) s" by simp
  have "drop (length a - length y) r = drop (length a - length y + (length y + length w)) s"
    by (subst r) (simp only: drop_drop)
  also have "length a - length y + (length y + length w) = length a + length w"
    using le by arith
  finally have "drop (length a - length y) r = r'" using r' by simp
  then show ?thesis by blast
qed

definition lazy_lit_tf ::
  "string \<Rightarrow> (string \<Rightarrow> (nat \<times> string) option) \<Rightarrow> string \<Rightarrow> (nat \<times> string) option"
where
  "lazy_lit_tf w tf s =
     (case find_sub w s of
        None \<Rightarrow> None
      | Some (y, r) \<Rightarrow> map_option (\<lambda>(j, grp). (length y + length w + j, grp)) (tf r))"

lemma fails_later_lazy_lit:
  assumes "fails_later tf"
  shows "fails_later (lazy_lit_tf w tf)"
  unfolding fails_later_def
proof (intro allI impI)
  fix s j
  assume n: "lazy_lit_tf w tf s = None"
  show "lazy_lit_tf w tf (drop j s) = None"
  proof (cases "find_sub w (drop j s)")
    case None
    then show ?thesis by (simp add: lazy_lit_tf_def)
  next
    case (Some p)
    obtain y' r' where p: "p = (y', r')" by (cases p)
    show ?thesis
    proof (cases "find_sub w s")
      case None
      from find_sub_None_drop[OF this, of j] Some show ?thesis by simp
    next
      case some: (Some q)
      obtain y r where q: "q = (y, r)" by (cases q)
      from n some q have "tf r = None" by (simp add: lazy_lit_tf_def)
      moreover from find_sub_later[of w s y r j y' r'] some q Some p
      obtain k where "r' = drop k r" by auto
      ultimately have "tf r' = None" using assms by (simp add: fails_later_def)
      with Some p show ?thesis by (simp add: lazy_lit_tf_def)
    qed
  qed
qed

lemma rx_match_Lit_tail:
  "rx_match (Seq (Lit w) k) (n, s, g) =
     (if prefix w s then rx_match k (n + length w, drop (length w) s, g) else [])"
  by simp

lemma tail_of_None: "tail_of k tf \<Longrightarrow> tf s = None \<Longrightarrow> rx_match k (n, s, g) = []"
proof -
  assume t: "tail_of k tf" and s: "tf s = None"
  from t have "case tf s of
        None \<Rightarrow> rx_match k (n, s, g) = []
      | Some (j, grp) \<Rightarrow> \<exists>rest. rx_match k (n, s, g) = (n + j, drop j s, Some grp) # rest"
    unfolding tail_of_def by blast
  with s show ?thesis by simp
qed

lemma tail_of_Some:
  "tail_of k tf \<Longrightarrow> tf s = Some (j, grp) \<Longrightarrow>
   \<exists>rest. rx_match k (n, s, g) = (n + j, drop j s, Some grp) # rest"
proof -
  assume t: "tail_of k tf" and s: "tf s = Some (j, grp)"
  from t have "case tf s of
        None \<Rightarrow> rx_match k (n, s, g) = []
      | Some (j, grp) \<Rightarrow> \<exists>rest. rx_match k (n, s, g) = (n + j, drop j s, Some grp) # rest"
    unfolding tail_of_def by blast
  with s show ?thesis by simp
qed

lemma tail_of_lazy_lit:
  assumes t: "tail_of k tf" and f: "fails_later tf"
  shows "tail_of (Seq (StarLazy any_char) (Seq (Lit w) k)) (lazy_lit_tf w tf)"
proof -
  let ?R = "Seq (Lit w) k"
  have none: "\<And>s n g. lazy_lit_tf w tf s = None \<Longrightarrow>
      rx_match (Seq (StarLazy any_char) ?R) (n, s, g) = []"
  proof -
    fix s :: string and n g
    show "lazy_lit_tf w tf s = None \<Longrightarrow> rx_match (Seq (StarLazy any_char) ?R) (n, s, g) = []"
    proof (induction s arbitrary: n)
      case Nil
      show ?case
      proof (cases "w = []")
        case True
        with Nil have "tf [] = None" by (simp add: lazy_lit_tf_def)
        from tail_of_None[OF t this] True show ?thesis
          by (simp only: lazy_any_Nil rx_match_Lit_tail) simp
      next
        case False
        then show ?thesis by (simp only: lazy_any_Nil rx_match_Lit_tail) simp
      qed
    next
      case (Cons c cs)
      have "lazy_lit_tf w tf (drop 1 (c # cs)) = None"
        using fails_later_lazy_lit[OF f, of w] Cons.prems
        unfolding fails_later_def by blast
      then have later: "lazy_lit_tf w tf cs = None" by simp
      have here: "rx_match ?R (n, c # cs, g) = []"
      proof (cases "prefix w (c # cs)")
        case True
        with Cons.prems have "tf (drop (length w) (c # cs)) = None"
          by (simp add: lazy_lit_tf_def)
        from tail_of_None[OF t this] True show ?thesis
          by (simp only: rx_match_Lit_tail) simp
      next
        case False
        then show ?thesis by (simp only: rx_match_Lit_tail) simp
      qed
      from Cons.IH[OF later, of "Suc n"] here show ?case
        by (simp only: lazy_any_Cons) simp
    qed
  qed
  have some: "\<And>s n g j grp. lazy_lit_tf w tf s = Some (j, grp) \<Longrightarrow>
      \<exists>rest. rx_match (Seq (StarLazy any_char) ?R) (n, s, g) = (n + j, drop j s, Some grp) # rest"
  proof -
    fix s :: string and n g j grp
    show "lazy_lit_tf w tf s = Some (j, grp) \<Longrightarrow>
      \<exists>rest. rx_match (Seq (StarLazy any_char) ?R) (n, s, g) = (n + j, drop j s, Some grp) # rest"
    proof (induction s arbitrary: n j)
      case Nil
      from Nil have w: "w = []" by (simp add: lazy_lit_tf_def split: if_splits)
      with Nil have "tf [] = Some (j, grp)" by (auto simp: lazy_lit_tf_def)
      from tail_of_Some[OF t this, of n g] w show ?case
        by (simp only: lazy_any_Nil rx_match_Lit_tail) simp
    next
      case (Cons c cs)
      show ?case
      proof (cases "prefix w (c # cs)")
        case True
        with Cons.prems obtain j' where
          j': "tf (drop (length w) (c # cs)) = Some (j', grp)" "j = length w + j'"
          by (auto simp: lazy_lit_tf_def)
        from tail_of_Some[OF t j'(1), of "n + length w" g] obtain rest where
          "rx_match k (n + length w, drop (length w) (c # cs), g) =
             (n + length w + j', drop j' (drop (length w) (c # cs)), Some grp) # rest"
          by blast
        with True j'(2) have "rx_match ?R (n, c # cs, g) = (n + j, drop j (c # cs), Some grp) # rest"
          by (simp only: rx_match_Lit_tail) (simp add: add.commute)
        then show ?thesis by (simp only: lazy_any_Cons) simp
      next
        case False
        then have here: "rx_match ?R (n, c # cs, g) = []"
          by (simp only: rx_match_Lit_tail) simp
        from False Cons.prems obtain j' where
          j': "lazy_lit_tf w tf cs = Some (j', grp)" "j = Suc j'"
          by (auto simp: lazy_lit_tf_def split: option.splits)
        from Cons.IH[OF j'(1), of "Suc n"] obtain rest where
          "rx_match (Seq (StarLazy any_char) ?R) (Suc n, cs, g) =
             (Suc n + j', drop j' cs, Some grp) # rest"
          by blast
        with here j'(2) show ?thesis by (simp only: lazy_any_Cons) simp
      qed
    qed
  qed
  show ?thesis
    unfolding tail_of_def
  proof (intro allI)
    fix n s g
    show "case lazy_lit_tf w tf s of
        None \<Rightarrow> rx_match (Seq (StarLazy any_char) ?R) (n, s, g) = []
      | Some (j, grp) \<Rightarrow> \<exists>rest. rx_match (Seq (StarLazy any_char) ?R) (n, s, g) =
          (n + j, drop j s, Some grp) # rest"
    proof (cases "lazy_lit_tf w tf s")
      case None
      with none[of s n g] show ?thesis by simp
    next
      case (Some p)
      obtain j grp where "p = (j, grp)" by (cases p)
      with Some some[of s j grp n g] show ?thesis by simp
    qed
  qed
qed


text \<open>The search for a literal followed by a tail.\<close>

lemma rx_scan_lit_tail:
  assumes t: "tail_of k tf" and f: "fails_later tf" and w: "w \<noteq> []"
  shows "rx_scan (Seq (Lit w) k) adv n s =
     (case find_sub w s of
        None \<Rightarrow> None
      | Some (x, r) \<Rightarrow>
          (case tf r of
             None \<Rightarrow> None
           | Some (j, grp) \<Rightarrow>
               Some \<lparr>m_start = n + length x, m_end = n + length x + length w + j,
                     m_text = w @ take j r, m_group = Some grp\<rparr>))"
proof (induction s arbitrary: n adv)
  case Nil
  from w have "rx_match (Seq (Lit w) k) (n, [], None) = []"
    by (simp only: rx_match_Lit_tail) simp
  with w show ?case by (subst rx_scan.simps) simp
next
  case (Cons c cs)
  show ?case
  proof (cases "prefix w (c # cs)")
    case True
    let ?r = "drop (length w) (c # cs)"
    from True have fs: "find_sub w (c # cs) = Some ([], ?r)" by simp
    from True have s: "c # cs = w @ ?r" by (auto simp: prefix_def)
    show ?thesis
    proof (cases "tf ?r")
      case None
      from tail_of_None[OF t None] True have here: "rx_match (Seq (Lit w) k) (n, c # cs, None) = []"
        by (simp only: rx_match_Lit_tail) simp
      have next_none: "rx_scan (Seq (Lit w) k) False (Suc n) cs = None"
      proof (cases "find_sub w cs")
        case none: None
        with Cons.IH[of False "Suc n"] show ?thesis by simp
      next
        case (Some p)
        obtain x' r' where p: "p = (x', r')" by (cases p)
        have "cs = drop 1 (c # cs)" by simp
        with Some p have "find_sub w (drop 1 (c # cs)) = Some (x', r')" by simp
        from find_sub_later[OF fs this] obtain i where "r' = drop i ?r" by blast
        moreover from None f have "tf (drop i ?r) = None"
          unfolding fails_later_def by blast
        ultimately have "tf r' = None" by simp
        with Some p Cons.IH[of False "Suc n"] show ?thesis by simp
      qed
      from here next_none fs None show ?thesis
        by (subst rx_scan.simps) simp
    next
      case (Some p)
      obtain j grp where p: "p = (j, grp)" by (cases p)
      from tail_of_Some[OF t, of ?r j grp "n + length w" None] Some p obtain rest where
        "rx_match k (n + length w, ?r, None) = (n + length w + j, drop j ?r, Some grp) # rest"
        by auto
      with True have here: "rx_match (Seq (Lit w) k) (n, c # cs, None) =
          (n + length w + j, drop j ?r, Some grp) # rest"
        by (simp only: rx_match_Lit_tail) simp
      from w have ne: "n + length w + j \<noteq> n" by simp
      have "take (length w + j) (w @ ?r) = w @ take j ?r" by simp
      with s have tk: "take (length w + j) (c # cs) = w @ take j ?r" by simp
      have "rx_scan (Seq (Lit w) k) adv n (c # cs) =
          Some \<lparr>m_start = n, m_end = n + length w + j,
                m_text = take (n + length w + j - n) (c # cs), m_group = Some grp\<rparr>"
        using here ne by (subst rx_scan.simps) simp
      also have "n + length w + j - n = length w + j" by simp
      finally show ?thesis using fs Some p tk by simp
    qed
  next
    case False
    then have here: "rx_match (Seq (Lit w) k) (n, c # cs, None) = []"
      by (simp only: rx_match_Lit_tail) simp
    then have step: "rx_scan (Seq (Lit w) k) adv n (c # cs) =
        rx_scan (Seq (Lit w) k) False (Suc n) cs"
      by (subst rx_scan.simps) simp
    show ?thesis
    proof (cases "find_sub w cs")
      case None
      with False step Cons.IH[of False "Suc n"] show ?thesis by simp
    next
      case (Some p)
      obtain x' r' where p: "p = (x', r')" by (cases p)
      with False Some step Cons.IH[of False "Suc n"] show ?thesis
        by (simp split: option.splits)
    qed
  qed
qed

lemma section_or_lit_tail:
  assumes "tail_of k tf" and "fails_later tf" and "w \<noteq> []"
  shows "section_or (Seq (Lit w) k) fallback t =
     Inr (case find_sub w t of
            None \<Rightarrow> fallback
          | Some (x, r) \<Rightarrow> (case tf r of None \<Rightarrow> fallback | Some (j, grp) \<Rightarrow> strip grp))"
  unfolding section_or_def rx_search_def rx_scan_lit_tail[OF assms]
  by (simp split: option.splits)

text \<open>
  \<open>between w1 w2 t\<close>: the text between the first \<open>w1\<close> in \<open>t\<close> and the first
  \<open>w2\<close> after it.
\<close>

definition between :: "string \<Rightarrow> string \<Rightarrow> string \<Rightarrow> string option" where
  "between w1 w2 t =
     (case find_sub w1 t of
        None \<Rightarrow> None
      | Some (x, r) \<Rightarrow> (case find_sub w2 r of None \<Rightarrow> None | Some (y, z) \<Rightarrow> Some y))"

lemma section_or_analysis:
  "section_or analysis_pattern fallback t =
     Inr (case between ''Analysis:'' ''Command Explanation'' t of
            None \<Rightarrow> fallback | Some y \<Rightarrow> strip y)"
  unfolding analysis_pattern_def
  by (subst section_or_lit_tail[OF tail_of_group_lit fails_later_until])
     (simp_all add: between_def until_tf_def split: option.splits)

lemma section_or_explanation:
  "section_or explanation_pattern fallback t =
     Inr (case between ''Command Explanation:'' ''Generated Command'' t of
            None \<Rightarrow> fallback | Some y \<Rightarrow> strip y)"
  unfolding explanation_pattern_def
  by (subst section_or_lit_tail[OF tail_of_group_lit fails_later_until])
     (simp_all add: between_def until_tf_def split: option.splits)

text \<open>
  \<open>fenced_after w t\<close>: the content of the first fenced block after the first \<open>w\<close>.
\<close>

definition fenced_after :: "string \<Rightarrow> string \<Rightarrow> string option" where
  "fenced_after w t =
     (case find_sub w t of
        None \<Rightarrow> None
      | Some (x, r) \<Rightarrow> between (fence_open @ [newline]) [backtick, backtick, backtick] r)"

lemma section_or_command:
  "section_or command_pattern fallback t =
     Inr (case fenced_after ''Generated Command:'' t of
            None \<Rightarrow> fallback | Some y \<Rightarrow> strip y)"
  unfolding command_pattern_def
  by (subst section_or_lit_tail[OF
        tail_of_lazy_lit[OF tail_of_group_lit fails_later_until]
        fails_later_lazy_lit[OF fails_later_until]])
     (simp_all add: fenced_after_def between_def until_tf_def lazy_lit_tf_def
        split: option.splits)


lemma find_sub_sublist: "find_sub w s = Some (x, r) \<Longrightarrow> sublist w s"
  using find_sub_Some[of w s x r] by (auto simp: sublist_def)

lemma between_sublist:
  assumes "between w1 w2 t = Some y"
  shows "sublist w1 t \<and> sublist w2 t"
proof -
  from assms obtain x r z where
    f: "find_sub w1 t = Some (x, r)" "find_sub w2 r = Some (y, z)"
    by (auto simp: between_def split: option.splits)
  from find_sub_Some[OF f(1)] find_sub_Some[OF f(2)] have
    "t = x @ w1 @ r" "t = (x @ w1 @ y) @ w2 @ z"
    by simp_all
  then show ?thesis unfolding sublist_def by blast
qed

lemma between_none:
  "\<not> sublist w1 t \<or> \<not> sublist w2 t \<Longrightarrow> between w1 w2 t = None"
  using between_sublist[of w1 w2 t] by (cases "between w1 w2 t") auto

lemma sublist_longer: "sublist (w @ v) t \<Longrightarrow> sublist w t"
  unfolding sublist_def by (metis append.assoc)

lemma fenced_after_sublist:
  assumes "fenced_after w t = Some y"
  shows "sublist w t \<and> sublist (fence_open @ [newline]) t"
proof -
  from assms obtain x r where
    f: "find_sub w t = Some (x, r)"
      "between (fence_open @ [newline]) [backtick, backtick, backtick] r = Some y"
    by (auto simp: fenced_after_def split: option.splits)
  from find_sub_Some[OF f(1)] have t: "t = (x @ w) @ r" by simp
  from between_sublist[OF f(2)] have "sublist (fence_open @ [newline]) r" by simp
  then obtain ps ss where "r = ps @ (fence_open @ [newline]) @ ss"
    unfolding sublist_def by blast
  with t have "t = ((x @ w) @ ps) @ (fence_open @ [newline]) @ ss" by simp
  then have "sublist (fence_open @ [newline]) t"
    unfolding sublist_def by blast
  with find_sub_sublist[OF f(1)] show ?thesis by simp
qed

section \<open>The response parser on free text\<close>

text \<open>
  Claim C8 says that when one of the three markers is absent the field of that marker is
  its fallback and the other two fields are extracted as usual. The first half holds and
  no error is raised. The second half does not: the pattern of a section ends at the
  header of the next section, so without \<open>Command Explanation\<close> the analysis is the
  fallback too, and without \<open>Generated Command\<close> so is the explanation. What holds:
  the analysis is the trimmed text between the first \<open>Analysis:\<close> and the first
  \<open>Command Explanation\<close> after it, the explanation the trimmed text between the first
  \<open>Command Explanation:\<close> and the first \<open>Generated Command\<close> after it, the command
  the normalized, trimmed content of the first fenced block after the first
  \<open>Generated Command:\<close>; a field for which the text has no such part is its fallback,
  which is so as soon as one of the two markers of the field is absent.
\<close>

theorem extract_free_text:
  assumes "decode t = None"
  shows "extract_explanation_and_command decode (Text t) =
     Inr ((case between ''Analysis:'' ''Command Explanation'' t of
             None \<Rightarrow> ''No analysis found.'' | Some y \<Rightarrow> strip y),
          (case between ''Command Explanation:'' ''Generated Command'' t of
             None \<Rightarrow> ''No explanation found.'' | Some y \<Rightarrow> strip y),
          normalize_code
            (case fenced_after ''Generated Command:'' t of
               None \<Rightarrow> ''No command found.'' | Some y \<Rightarrow> strip y)) \<and>
   (\<not> sublist ''Analysis:'' t \<or> \<not> sublist ''Command Explanation'' t \<longrightarrow>
      between ''Analysis:'' ''Command Explanation'' t = None) \<and>
   (\<not> sublist ''Command Explanation'' t \<or> \<not> sublist ''Generated Command'' t \<longrightarrow>
      between ''Command Explanation:'' ''Generated Command'' t = None) \<and>
   (\<not> sublist ''Generated Command'' t \<or> \<not> sublist (fence_open @ [newline]) t \<longrightarrow>
      fenced_after ''Generated Command:'' t = None) \<and>
   normalize_code ''No command found.'' = ''No command found.''"
proof -
  have main: "extract_explanation_and_command decode (Text t) =
     Inr ((case between ''Analysis:'' ''Command Explanation'' t of
             None \<Rightarrow> ''No analysis found.'' | Some y \<Rightarrow> strip y),
          (case between ''Command Explanation:'' ''Generated Command'' t of
             None \<Rightarrow> ''No explanation found.'' | Some y \<Rightarrow> strip y),
          normalize_code
            (case fenced_after ''Generated Command:'' t of
               None \<Rightarrow> ''No command found.'' | Some y \<Rightarrow> strip y))"
    using assms
    by (simp add: extract_explanation_and_command_def section_or_analysis
        section_or_explanation section_or_command)
  have a: "\<not> sublist ''Analysis:'' t \<or> \<not> sublist ''Command Explanation'' t \<longrightarrow>
      between ''Analysis:'' ''Command Explanation'' t = None"
    using between_none by blast
  have "sublist (''Command Explanation'' @ '':'') t \<Longrightarrow> sublist ''Command Explanation'' t"
    by (rule sublist_longer)
  then have b: "\<not> sublist ''Command Explanation'' t \<or> \<not> sublist ''Generated Command'' t \<longrightarrow>
      between ''Command Explanation:'' ''Generated Command'' t = None"
    using between_none[of "''Command Explanation:''" t "''Generated Command''"] by auto
  have "sublist (''Generated Command'' @ '':'') t \<Longrightarrow> sublist ''Generated Command'' t"
    by (rule sublist_longer)
  then have c: "\<not> sublist ''Generated Command'' t \<or> \<not> sublist (fence_open @ [newline]) t \<longrightarrow>
      fenced_after ''Generated Command:'' t = None"
    using fenced_after_sublist[of "''Generated Command:''" t]
    by (cases "fenced_after ''Generated Command:'' t") auto
  have d: "normalize_code ''No command found.'' = ''No command found.''"
    by code_simp
  from main a b c d show ?thesis by blast
qed

definition full_response :: string where
  "full_response =
     ''Analysis: one image'' @ [newline] @ ''Command Explanation: detect'' @ [newline] @
     ''Generated Command:'' @ [newline] @ fence_open @ [newline] @
     ''execution = tool.execute(q=1)'' @ [newline] @ [backtick, backtick, backtick]"

theorem extract_free_text_witness:
  "extract_explanation_and_command (\<lambda>t. None) (Text full_response) =
     Inr (''one image'', ''detect'', ''execution = tool.execute(q=1)'')"
proof -
  have d: "(\<lambda>t. None :: tool_command option) full_response = None" by simp
  have e: "Inr ((case between ''Analysis:'' ''Command Explanation'' full_response of
             None \<Rightarrow> ''No analysis found.'' | Some y \<Rightarrow> strip y),
          (case between ''Command Explanation:'' ''Generated Command'' full_response of
             None \<Rightarrow> ''No explanation found.'' | Some y \<Rightarrow> strip y),
          normalize_code
            (case fenced_after ''Generated Command:'' full_response of
               None \<Rightarrow> ''No command found.'' | Some y \<Rightarrow> strip y)) =
     (Inr (''one image'', ''detect'', ''execution = tool.execute(q=1)'') ::
        parse_error + string \<times> string \<times> string)"
    by code_simp
  from extract_free_text[OF d, THEN conjunct1] e show ?thesis by simp
qed

text \<open>
  A response without \<open>Command Explanation\<close>: the text starts with \<open>Analysis:\<close>, and
  the analysis is the fallback all the same.
\<close>

definition no_explanation_response :: string where
  "no_explanation_response =
     ''Analysis: one image'' @ [newline] @
     ''Generated Command:'' @ [newline] @ fence_open @ [newline] @
     ''execution = tool.execute(q=1)'' @ [newline] @ [backtick, backtick, backtick]"

theorem missing_explanation_loses_analysis:
  "extract_explanation_and_command (\<lambda>t. None) (Text no_explanation_response) =
     Inr (''No analysis found.'', ''No explanation found.'', ''execution = tool.execute(q=1)'') \<and>
   prefix ''Analysis:'' no_explanation_response"
  by code_simp


section \<open>Lines, and lines that hold an invocation\<close>

text \<open>
  The claim about the number of blocks speaks of the lines of a command: the stretches
  of text between two line breaks, or between a line break and the start or the end.
\<close>

fun split_lines :: "string \<Rightarrow> string list" where
  "split_lines [] = [[]]"
| "split_lines (c # cs) =
     (if c = newline then [] # split_lines cs
      else (case split_lines cs of [] \<Rightarrow> [[c]] | l # ls \<Rightarrow> (c # l) # ls))"

text \<open>
  A line counts as an invocation line when the splitter's pattern finds a match in the
  line taken alone: the line holds \<open>execution = tool.execute(...)\<close> and after the
  closing parenthesis only white space.
\<close>

definition invocation_line :: "string \<Rightarrow> bool" where
  "invocation_line l = (split_commands l \<noteq> [])"












lemma invocation_line_iff: "invocation_line l \<longleftrightarrow> (\<exists>i\<le>length l. inv_at (drop i l))"
  by (auto simp: invocation_line_def split_commands_Nil_iff)

lemma inv_text_has_e: "inv_text m r \<Longrightarrow> CHR ''e'' \<in> set m"
  by (auto simp: inv_text_def)

lemma invocation_line_has_e: "invocation_line l \<Longrightarrow> CHR ''e'' \<in> set l"
proof -
  assume "invocation_line l"
  then obtain i m r where "drop i l = m @ r" "inv_text m r"
    by (auto simp: invocation_line_iff inv_at_def)
  then have "CHR ''e'' \<in> set (drop i l)" by (auto dest: inv_text_has_e)
  then show ?thesis by (rule in_set_dropD)
qed



text \<open>The number of invocation lines of a text.\<close>

definition count_lines :: "string \<Rightarrow> nat" where
  "count_lines s = length (filter invocation_line (split_lines s))"


lemma not_invocation_line_Nil [simp]: "\<not> invocation_line []"
  by (simp add: invocation_line_iff)

lemma count_lines_Nil [simp]: "count_lines [] = 0"
  by (simp add: count_lines_def)

























end
